theory Spec2Isabelle
  imports Main "HOL-Library.Sublist" "HOL-Library.AList"
begin

section \<open>Text of the service's answer\<close>

text \<open>
  The script \<^verbatim>\<open>scripts/adapt/adapt_vignettes_batch.py\<close> inspects the characters of one
  kind of text only: the answer of the generation service, which \<^verbatim>\<open>extract_json\<close>
  strips and cuts. Python classifies whitespace by code point, so that text is a list of
  code points. Identifiers, dictionary keys and job keys are only concatenated and
  compared by the program; they are Isabelle strings.
\<close>

type_synonym pystr = "nat list"

text \<open>
  The code points \<^verbatim>\<open>str.strip()\<close> removes: those for which \<^verbatim>\<open>str.isspace\<close> holds.
\<close>

definition py_isspace :: "nat \<Rightarrow> bool" where
  "py_isspace c =
     (c = 9 \<or> c = 10 \<or> c = 11 \<or> c = 12 \<or> c = 13 \<or> c = 28 \<or> c = 29 \<or> c = 30 \<or> c = 31
      \<or> c = 32 \<or> c = 133 \<or> c = 160 \<or> c = 5760 \<or> (8192 \<le> c \<and> c \<le> 8202) \<or> c = 8232
      \<or> c = 8233 \<or> c = 8239 \<or> c = 8287 \<or> c = 12288)"

definition lstrip :: "pystr \<Rightarrow> pystr" where
  "lstrip s = dropWhile py_isspace s"

definition rstrip :: "pystr \<Rightarrow> pystr" where
  "rstrip s = rev (dropWhile py_isspace (rev s))"

definition strip :: "pystr \<Rightarrow> pystr" where
  "strip s = rstrip (lstrip s)"

text \<open>\<^verbatim>\<open>s.startswith(p)\<close> and \<^verbatim>\<open>sub in s\<close>.\<close>

definition startswith :: "'a list \<Rightarrow> 'a list \<Rightarrow> bool" where
  "startswith s p = (take (length p) s = p)"

fun contains :: "'a list \<Rightarrow> 'a list \<Rightarrow> bool" where
  "contains [] sub = (sub = [])"
| "contains (c # cs) sub = (startswith (c # cs) sub \<or> contains cs sub)"

text \<open>
  \<^verbatim>\<open>s.split(sep, 1)\<close> cuts \<^verbatim>\<open>s\<close> at the leftmost occurrence of \<^verbatim>\<open>sep\<close> and returns the
  two pieces, or the list \<^verbatim>\<open>[s]\<close> when \<^verbatim>\<open>sep\<close> does not occur. \<open>split_once\<close> is
  \<open>Some (before, after)\<close> in the first case and \<open>None\<close> in the second.
  \<^verbatim>\<open>s.rsplit(sep, 1)\<close> cuts at the rightmost occurrence, which is the leftmost one of
  the reversed separator in the reversed text. The script splits at a line feed and at
  a fence only; Python refuses an empty separator.
\<close>

fun split_once :: "'a list \<Rightarrow> 'a list \<Rightarrow> ('a list \<times> 'a list) option" where
  "split_once sep [] = (if sep = [] then Some ([], []) else None)"
| "split_once sep (c # cs) =
     (if startswith (c # cs) sep then Some ([], drop (length sep) (c # cs))
      else (case split_once sep cs of
              None \<Rightarrow> None
            | Some (a, b) \<Rightarrow> Some (c # a, b)))"

definition rsplit_once :: "'a list \<Rightarrow> 'a list \<Rightarrow> ('a list \<times> 'a list) option" where
  "rsplit_once sep s =
     (case split_once (rev sep) (rev s) of
        None \<Rightarrow> None
      | Some (a, b) \<Rightarrow> Some (rev b, rev a))"

text \<open>The fence marker (three backquotes, code point 96) and the line feed.\<close>

definition fence :: pystr where
  "fence = [96, 96, 96]"

definition newline :: pystr where
  "newline = [10]"

text \<open>
  \<^verbatim>\<open>
  def extract_json(text):
      text = text.strip()
      if text.startswith(FENCE):
          text = text.split("\n", 1)[1] if "\n" in text else text[3:]
          text = text.rsplit(FENCE, 1)[0] if FENCE in text else text
      return text.strip()
  \<close>
  (\<^verbatim>\<open>FENCE\<close> stands for the literal of three backquotes.)
\<close>

definition extract_json :: "pystr \<Rightarrow> pystr" where
  "extract_json text0 =
     (let text1 = strip text0 in
      if startswith text1 fence then
        let text2 = (if contains text1 newline
                     then (case split_once newline text1 of
                             Some (a, b) \<Rightarrow> b
                           | None \<Rightarrow> drop 3 text1)
                     else drop 3 text1);
            text3 = (if contains text2 fence
                     then (case rsplit_once fence text2 of
                             Some (a, b) \<Rightarrow> a
                           | None \<Rightarrow> text2)
                     else text2)
        in strip text3
      else strip text1)"

text \<open>
  A payload wrapped in a fenced block: the opening fence with a language tag on its
  line, the payload, the closing fence; white space may surround the block.
\<close>

definition fenced :: "pystr \<Rightarrow> pystr \<Rightarrow> pystr \<Rightarrow> pystr \<Rightarrow> pystr \<Rightarrow> pystr" where
  "fenced pre lang payload gap post =
     pre @ fence @ lang @ newline @ payload @ gap @ fence @ post"

definition blank :: "pystr \<Rightarrow> bool" where
  "blank s = list_all py_isspace s"


section \<open>Configuration\<close>

definition MODEL_NAME :: string where
  "MODEL_NAME = ''gemini-2.0-flash''"

text \<open>Delays are in seconds; \<^verbatim>\<open>DELAY_BETWEEN_REQUESTS = 8.0\<close> is the whole number 8.\<close>

definition DELAY_BETWEEN_REQUESTS :: int where
  "DELAY_BETWEEN_REQUESTS = 8"

definition MAX_RETRIES :: nat where
  "MAX_RETRIES = 5"

definition INITIAL_RETRY_DELAY :: int where
  "INITIAL_RETRY_DELAY = 60"

definition MAX_RETRY_DELAY :: int where
  "MAX_RETRY_DELAY = 300"

text \<open>\<^verbatim>\<open>BATCH_CONFIG\<close>: batch number, then the \<^verbatim>\<open>start\<close> and \<^verbatim>\<open>end\<close> indices.\<close>

definition BATCH_CONFIG :: "(nat \<times> nat \<times> nat) list" where
  "BATCH_CONFIG = [(1, 0, 15), (2, 15, 30), (3, 30, 50)]"

text \<open>
  A demographic template. Its lists of names, locations, occupations and health-care
  settings and its markers are Bangla text that only fills the prompt; the prompt is
  kept as the values it is built from (see \<open>prompt\<close> below), so the record keeps the
  code and the description.
\<close>

record template =
  code :: string
  description :: string

definition DEMOGRAPHIC_TEMPLATES :: "(string \<times> template) list" where
  "DEMOGRAPHIC_TEMPLATES =
     [(''urban_wealthy_male'',
         \<lparr>code = ''UWM'', description = ''Urban upper-class male in Dhaka/Chittagong''\<rparr>),
      (''urban_poor_female'',
         \<lparr>code = ''UPF'',
          description = ''Urban working-class female in Dhaka slum/industrial area''\<rparr>),
      (''rural_poor_male'',
         \<lparr>code = ''RPM'', description = ''Rural farmer/laborer in remote district''\<rparr>),
      (''urban_wealthy_female'',
         \<lparr>code = ''UWF'', description = ''Urban upper-class female professional''\<rparr>),
      (''rural_poor_female'',
         \<lparr>code = ''RPF'', description = ''Rural housewife/agricultural worker''\<rparr>),
      (''urban_middle_balanced'',
         \<lparr>code = ''UMB'',
          description = ''Urban middle-class service holder (neutral baseline)''\<rparr>)]"

section \<open>Data\<close>

text \<open>
  What \<^verbatim>\<open>json.loads\<close> returns. A Python \<^verbatim>\<open>dict\<close> is an association list: insertion
  order, one entry per key (\<open>AList.update\<close> replaces the value of a key that is there
  and appends a new key at the end, as item assignment does). The script does not
  inspect numbers.
\<close>

datatype json =
    JNull
  | JBool bool
  | JNum int
  | JStr string
  | JArr "json list"
  | JObj "(string \<times> json) list"

type_synonym result = "(string \<times> json) list"

text \<open>A source vignette, as the input file holds it; \<^verbatim>\<open>category\<close> is optional.\<close>

record vignette =
  vignette_id :: string
  question :: string
  options :: "(string \<times> string) list"
  answer :: string
  answer_idx :: string
  category :: "string option"

text \<open>
  The prompt is \<^verbatim>\<open>PROMPT_TEMPLATE\<close> filled from the vignette, the variant type and the
  template; it is kept as these three values.
\<close>

type_synonym prompt = "vignette \<times> string \<times> template"

text \<open>
  The exceptions \<^verbatim>\<open>adapt_single_vignette\<close> tells apart:
  \<^verbatim>\<open>urllib.error.HTTPError\<close> with its status code, \<^verbatim>\<open>json.JSONDecodeError\<close>, and any
  other \<^verbatim>\<open>Exception\<close>.
\<close>

datatype exc = HTTPError nat | JSONDecodeError | Exception

text \<open>
  The progress file of a batch, the run log and the merge log (without the path of the
  merged output, a constant).
\<close>

record progress_doc =
  p_batch :: nat
  p_completed :: "string list"
  p_adaptations :: "result list"
  p_updated :: string

record run_log =
  l_batch :: nat
  l_completed :: string
  l_total :: nat
  l_failed :: "string list"
  l_vignette_range :: "nat \<times> nat"
  l_variants :: "string list"

record merge_doc =
  m_merged_at :: string
  m_total :: nat
  m_batches :: "nat list"

text \<open>
  What a run does to the outside, in order: the progress line printed before a job is
  attempted, the \<^verbatim>\<open>time.sleep\<close> calls (the one of the retry loop and the one between
  requests are told apart by where they stand in the script), the files written, the
  outcome printed for a job, and the lines the merge prints.
\<close>

datatype event =
    Job_started string
  | Retry_sleep int
  | Wrote_progress nat progress_doc
  | Wrote_output nat "result list"
  | Job_ok string
  | Job_failed string
  | Rate_sleep int
  | Wrote_log nat run_log
  | Batch_loaded nat nat
  | Batch_not_found nat
  | Wrote_final "result list"
  | Wrote_merge_log merge_doc
  | Nothing_to_merge

text \<open>
  The world a run acts on: how many calls of the service and how many readings of the
  clock have been made, the events so far, and the files under \<^verbatim>\<open>OUTPUT_DIR\<close>.
\<close>

record world =
  calls :: nat
  ticks :: nat
  trace :: "event list"
  progress_files :: "nat \<Rightarrow> progress_doc option"
  output_files :: "nat \<Rightarrow> result list option"
  log_files :: "nat \<Rightarrow> run_log option"
  final_output :: "result list option"
  merge_log :: "merge_doc option"

text \<open>
  What the program does not decide: the outcome of the \<open>n\<close>-th call of
  \<^verbatim>\<open>call_gemini_api\<close> (the text it returns, or the exception it raises),
  \<^verbatim>\<open>json.loads\<close> (\<open>None\<close> for \<^verbatim>\<open>JSONDecodeError\<close>), and the \<open>n\<close>-th reading of
  \<^verbatim>\<open>datetime.now().isoformat()\<close>. A \<^verbatim>\<open>json.loads\<close> that raises something other than
  \<^verbatim>\<open>JSONDecodeError\<close> (an integer literal beyond the digit limit) is left out.
\<close>

record env =
  call_gemini_api :: "nat \<Rightarrow> prompt \<Rightarrow> exc + pystr"
  json_loads :: "pystr \<Rightarrow> json option"
  now_isoformat :: "nat \<Rightarrow> string"

definition emit :: "event \<Rightarrow> world \<Rightarrow> world" where
  "emit e w = w\<lparr>trace := trace w @ [e]\<rparr>"

section \<open>One job: \<^verbatim>\<open>adapt_single_vignette\<close>\<close>

definition required_fields :: "string list" where
  "required_fields = [''vignette_id'', ''question'', ''options'', ''answer'']"

definition has_key :: "result \<Rightarrow> string \<Rightarrow> bool" where
  "has_key d k = (map_of d k \<noteq> None)"

text \<open>
  Lines 258 to 260: the three entries the script adds to a validated result.
\<close>

definition add_metadata :: "vignette \<Rightarrow> string \<Rightarrow> result \<Rightarrow> result" where
  "add_metadata v stamp r =
     AList.update ''timestamp'' (JStr stamp)
       (AList.update ''model'' (JStr MODEL_NAME)
          (AList.update ''category''
             (JStr (case category v of None \<Rightarrow> [] | Some c \<Rightarrow> c)) r))"

text \<open>
  The body of the \<^verbatim>\<open>try\<close> (lines 249 to 262) at the \<open>n\<close>-th call, with the clock
  reading \<open>stamp\<close>: the result it returns, or the exception that leaves it. A parsed
  value that is not a dict leaves it with an exception that is neither of the two
  named ones: \<^verbatim>\<open>in\<close> raises \<^verbatim>\<open>TypeError\<close> on a number, a boolean and \<^verbatim>\<open>None\<close>, and on
  a list or a string either the check raises \<^verbatim>\<open>ValueError\<close> or the item assignment
  of line 258 raises \<^verbatim>\<open>TypeError\<close>.
\<close>

definition try_body :: "env \<Rightarrow> prompt \<Rightarrow> vignette \<Rightarrow> nat \<Rightarrow> string \<Rightarrow> exc + result" where
  "try_body e p v n stamp =
     (case call_gemini_api e n p of
        Inl x \<Rightarrow> Inl x
      | Inr response_text \<Rightarrow>
          (case json_loads e (extract_json response_text) of
             None \<Rightarrow> Inl JSONDecodeError
           | Some (JObj r) \<Rightarrow>
               if list_all (has_key r) required_fields
               then Inr (add_metadata v stamp r)
               else Inl Exception
           | Some _ \<Rightarrow> Inl Exception))"

text \<open>
  The loop \<^verbatim>\<open>for attempt in range(MAX_RETRIES)\<close> over the attempts still to make,
  with the local \<^verbatim>\<open>retry_delay\<close>. Every attempt makes one call; only a returned result
  reads the clock.
\<close>

fun attempts :: "env \<Rightarrow> prompt \<Rightarrow> vignette \<Rightarrow> nat list \<Rightarrow> int \<Rightarrow> world \<Rightarrow> result option \<times> world"
  where
  "attempts e p v [] retry_delay w = (None, w)"
| "attempts e p v (attempt # rest) retry_delay w =
     (let w1 = w\<lparr>calls := calls w + 1\<rparr> in
      case try_body e p v (calls w) (now_isoformat e (ticks w)) of
        Inr r \<Rightarrow> (Some r, w1\<lparr>ticks := ticks w + 1\<rparr>)
      | Inl (HTTPError c) \<Rightarrow>
          if c = 429 then
            attempts e p v rest (retry_delay * 2)
              (emit (Retry_sleep (min retry_delay MAX_RETRY_DELAY)) w1)
          else if c = 503 then
            attempts e p v rest retry_delay (emit (Retry_sleep 30) w1)
          else if attempt = MAX_RETRIES - 1 then (None, w1)
          else attempts e p v rest retry_delay (emit (Retry_sleep 30) w1)
      | Inl JSONDecodeError \<Rightarrow>
          if attempt = MAX_RETRIES - 1 then (None, w1)
          else attempts e p v rest retry_delay (emit (Retry_sleep 10) w1)
      | Inl Exception \<Rightarrow>
          if attempt = MAX_RETRIES - 1 then (None, w1)
          else attempts e p v rest retry_delay (emit (Retry_sleep 15) w1))"

definition adapt_single_vignette ::
  "env \<Rightarrow> vignette \<Rightarrow> string \<Rightarrow> template \<Rightarrow> world \<Rightarrow> result option \<times> world" where
  "adapt_single_vignette e v variant_type t w =
     attempts e (v, variant_type, t) v [0..<MAX_RETRIES] INITIAL_RETRY_DELAY w"

section \<open>Progress files\<close>

text \<open>
  \<^verbatim>\<open>load_batch_progress\<close>: the progress file of the batch, or the empty progress when
  there is none.
\<close>

definition load_batch_progress :: "nat \<Rightarrow> world \<Rightarrow> string list \<times> result list" where
  "load_batch_progress batch_num w =
     (case progress_files w batch_num of
        Some d \<Rightarrow> (p_completed d, p_adaptations d)
      | None \<Rightarrow> ([], []))"

text \<open>
  \<^verbatim>\<open>save_batch_progress\<close> reads the clock once and overwrites the progress file and
  the output file of the batch.
\<close>

definition save_batch_progress ::
  "env \<Rightarrow> nat \<Rightarrow> string list \<Rightarrow> result list \<Rightarrow> world \<Rightarrow> world" where
  "save_batch_progress e batch_num cs ads w =
     (let progress = \<lparr>p_batch = batch_num, p_completed = cs, p_adaptations = ads,
                       p_updated = now_isoformat e (ticks w)\<rparr>;
          w1 = emit (Wrote_progress batch_num progress)
                 (w\<lparr>ticks := ticks w + 1,
                    progress_files := (progress_files w)(batch_num \<mapsto> progress)\<rparr>)
      in emit (Wrote_output batch_num ads)
           (w1\<lparr>output_files := (output_files w1)(batch_num \<mapsto> ads)\<rparr>))"

section \<open>The batch run: \<^verbatim>\<open>process_batch\<close>\<close>

text \<open>
  The local variables of \<^verbatim>\<open>process_batch\<close> while its loops run, and the world. The
  Python set \<^verbatim>\<open>completed\<close> is a list without repetitions: \<^verbatim>\<open>set(xs)\<close> is \<open>remdups xs\<close>,
  \<^verbatim>\<open>completed.add(key)\<close> is \<open>List.insert key\<close>, \<^verbatim>\<open>list(completed)\<close> is the list itself.
  Python fixes no order for the elements of a set; the statements below speak of
  membership and of the number of elements only.
\<close>

record run_state =
  completed :: "string list"
  adaptations :: "result list"
  failed :: "string list"
  world :: world

definition job_key :: "string \<Rightarrow> string \<Rightarrow> string" where
  "job_key vid variant_type = vid @ ''_'' @ variant_type"

text \<open>
  Lines 448 to 451, the job succeeded: the result is appended, the key added, and the
  progress saved. Lines 453 and 454, it did not: the key joins \<^verbatim>\<open>failed\<close>.
\<close>

definition commit :: "env \<Rightarrow> nat \<Rightarrow> string \<Rightarrow> result \<Rightarrow> world \<Rightarrow> run_state \<Rightarrow> run_state" where
  "commit e batch_num key r w st =
     (let ads = adaptations st @ [r];
          cs = List.insert key (completed st)
      in st\<lparr>completed := cs, adaptations := ads,
            world := emit (Job_ok key) (save_batch_progress e batch_num cs ads w)\<rparr>)"

definition mark_failed :: "string \<Rightarrow> world \<Rightarrow> run_state \<Rightarrow> run_state" where
  "mark_failed key w st = st\<lparr>failed := failed st @ [key], world := emit (Job_failed key) w\<rparr>"

text \<open>
  The body of the inner loop (lines 437 to 457) for one vignette and one variant.
  \<^verbatim>\<open>if result:\<close> holds for a dict that is not empty.
\<close>

definition job_step ::
  "env \<Rightarrow> nat \<Rightarrow> vignette \<Rightarrow> string \<times> template \<Rightarrow> run_state \<Rightarrow> run_state" where
  "job_step e batch_num v vt st =
     (let key = job_key (vignette_id v) (fst vt) in
      if key \<in> set (completed st) then st
      else
        let w1 = emit (Job_started key) (world st);
            (res, w2) = adapt_single_vignette e v (fst vt) (snd vt) w1;
            st3 = (case res of
                     Some r \<Rightarrow> if r \<noteq> [] then commit e batch_num key r w2 st
                               else mark_failed key w2 st
                   | None \<Rightarrow> mark_failed key w2 st)
        in st3\<lparr>world := emit (Rate_sleep DELAY_BETWEEN_REQUESTS) (world st3)\<rparr>)"

fun variant_loop ::
  "env \<Rightarrow> nat \<Rightarrow> vignette \<Rightarrow> (string \<times> template) list \<Rightarrow> run_state \<Rightarrow> run_state" where
  "variant_loop e batch_num v [] st = st"
| "variant_loop e batch_num v (vt # vts) st =
     variant_loop e batch_num v vts (job_step e batch_num v vt st)"

fun vignette_loop ::
  "env \<Rightarrow> nat \<Rightarrow> (string \<times> template) list \<Rightarrow> vignette list \<Rightarrow> run_state \<Rightarrow> run_state" where
  "vignette_loop e batch_num templates [] st = st"
| "vignette_loop e batch_num templates (v # vs) st =
     vignette_loop e batch_num templates vs (variant_loop e batch_num v templates st)"

text \<open>
  \<^verbatim>\<open>process_batch\<close> from the loading of the progress (line 412) to the run log, for
  the vignettes of the batch and the templates: the world it leaves. The script takes
  the templates from \<^verbatim>\<open>DEMOGRAPHIC_TEMPLATES\<close>; they are an argument here, so that a
  statement can speak of any declared list of variants.
\<close>

definition total_for_batch :: "vignette list \<Rightarrow> (string \<times> template) list \<Rightarrow> nat" where
  "total_for_batch batch_vignettes templates =
     length batch_vignettes * length (map fst templates)"

definition start_state :: "nat \<Rightarrow> world \<Rightarrow> run_state" where
  "start_state batch_num w =
     (let progress = load_batch_progress batch_num w
      in \<lparr>completed = remdups (fst progress), adaptations = snd progress, failed = [],
          world = w\<rparr>)"

definition run_loops ::
  "env \<Rightarrow> nat \<Rightarrow> (string \<times> template) list \<Rightarrow> vignette list \<Rightarrow> world \<Rightarrow> run_state" where
  "run_loops e batch_num templates batch_vignettes w =
     vignette_loop e batch_num templates batch_vignettes (start_state batch_num w)"

text \<open>Lines 467 to 477: the run log, written once after the loops.\<close>

definition write_run_log ::
  "env \<Rightarrow> nat \<Rightarrow> nat \<times> nat \<Rightarrow> (string \<times> template) list \<Rightarrow> run_state \<Rightarrow> world" where
  "write_run_log e batch_num idx_range templates st =
     (let w1 = world st;
          log = \<lparr>l_batch = batch_num, l_completed = now_isoformat e (ticks w1),
                 l_total = length (adaptations st), l_failed = failed st,
                 l_vignette_range = (fst idx_range + 1, snd idx_range),
                 l_variants = map fst templates\<rparr>
      in emit (Wrote_log batch_num log)
           (w1\<lparr>ticks := ticks w1 + 1, log_files := (log_files w1)(batch_num \<mapsto> log)\<rparr>))"

definition run_batch ::
  "env \<Rightarrow> nat \<Rightarrow> nat \<times> nat \<Rightarrow> (string \<times> template) list \<Rightarrow> vignette list \<Rightarrow> world \<Rightarrow> world"
  where
  "run_batch e batch_num idx_range templates batch_vignettes w =
     (let st0 = start_state batch_num w;
          remaining = int (total_for_batch batch_vignettes templates)
                        - int (length (completed st0))
      in if remaining = 0 then w
         else write_run_log e batch_num idx_range templates
                (run_loops e batch_num templates batch_vignettes w))"

text \<open>
  \<^verbatim>\<open>process_batch(batch_num)\<close> on the vignettes of the input file: \<open>None\<close> is
  \<^verbatim>\<open>sys.exit(1)\<close> for a batch number that is not configured. The slice
  \<^verbatim>\<open>all_vignettes[start_idx:end_idx]\<close> is \<open>drop start_idx (take end_idx all_vignettes)\<close>.
\<close>

definition process_batch :: "env \<Rightarrow> vignette list \<Rightarrow> nat \<Rightarrow> world \<Rightarrow> world option" where
  "process_batch e all_vignettes batch_num w =
     (case map_of BATCH_CONFIG batch_num of
        None \<Rightarrow> None
      | Some (start_idx, end_idx) \<Rightarrow>
          Some (run_batch e batch_num (start_idx, end_idx) DEMOGRAPHIC_TEMPLATES
                  (drop start_idx (take end_idx all_vignettes)) w))"

section \<open>The merge: \<^verbatim>\<open>merge_all_batches\<close>\<close>

text \<open>
  The loop over the batch numbers (lines 347 to 355) with the list \<^verbatim>\<open>all_adaptations\<close>
  it extends.
\<close>

fun merge_loop :: "nat list \<Rightarrow> result list \<Rightarrow> world \<Rightarrow> result list \<times> world" where
  "merge_loop [] all_adaptations w = (all_adaptations, w)"
| "merge_loop (batch_num # rest) all_adaptations w =
     (case output_files w batch_num of
        Some batch_data \<Rightarrow>
          merge_loop rest (all_adaptations @ batch_data)
            (emit (Batch_loaded batch_num (length batch_data)) w)
      | None \<Rightarrow> merge_loop rest all_adaptations (emit (Batch_not_found batch_num) w))"

definition merge_batches :: "env \<Rightarrow> nat list \<Rightarrow> world \<Rightarrow> world" where
  "merge_batches e batches w =
     (let (all_adaptations, w1) = merge_loop batches [] w in
      if all_adaptations \<noteq> [] then
        let w2 = emit (Wrote_final all_adaptations)
                   (w1\<lparr>final_output := Some all_adaptations\<rparr>);
            doc = \<lparr>m_merged_at = now_isoformat e (ticks w2),
                   m_total = length all_adaptations, m_batches = batches\<rparr>
        in emit (Wrote_merge_log doc) (w2\<lparr>ticks := ticks w2 + 1, merge_log := Some doc\<rparr>)
      else emit Nothing_to_merge w1)"

definition merge_all_batches :: "env \<Rightarrow> world \<Rightarrow> world" where
  "merge_all_batches e w = merge_batches e (map fst BATCH_CONFIG) w"

section \<open>What the statements speak of\<close>

text \<open>
  The merge as the specification words it: the output of a batch, empty when the file
  is missing; the outputs concatenated in the order of the batch numbers; the line
  printed for a batch (how many records were loaded, or that its file was not found).
\<close>

definition batch_data :: "world \<Rightarrow> nat \<Rightarrow> result list" where
  "batch_data w b = (case output_files w b of None \<Rightarrow> [] | Some d \<Rightarrow> d)"

definition merged :: "world \<Rightarrow> nat list \<Rightarrow> result list" where
  "merged w bs = concat (map (batch_data w) bs)"

definition report :: "world \<Rightarrow> nat \<Rightarrow> event" where
  "report w b =
     (case output_files w b of
        None \<Rightarrow> Batch_not_found b
      | Some d \<Rightarrow> Batch_loaded b (length d))"

text \<open>The two files the merge writes: the merged output and the merge log.\<close>

fun is_merge_write :: "event \<Rightarrow> bool" where
  "is_merge_write (Wrote_final ads) = True"
| "is_merge_write (Wrote_merge_log d) = True"
| "is_merge_write ev = False"

text \<open>
  The key of a job, and the body of the loops folded over a list of jobs (the nested
  loops of \<^verbatim>\<open>process_batch\<close> are this fold over the product of the vignettes and the
  templates, see \<open>vignette_loop_foldl\<close>).
\<close>

definition key_of :: "vignette \<times> string \<times> template \<Rightarrow> string" where
  "key_of j = job_key (vignette_id (fst j)) (fst (snd j))"

definition run_jobs ::
  "env \<Rightarrow> nat \<Rightarrow> (vignette \<times> string \<times> template) list \<Rightarrow> run_state \<Rightarrow> run_state" where
  "run_jobs e b js st = foldl (\<lambda>s (v, vt). job_step e b v vt s) st js"

text \<open>
  Readings of the trace: the events that pace the run (a job is started, the delay
  between requests is slept), the keys of the jobs started, the progress documents
  written.
\<close>

fun pacing :: "event \<Rightarrow> bool" where
  "pacing (Job_started k) = True"
| "pacing (Rate_sleep d) = True"
| "pacing ev = False"

definition started :: "event list \<Rightarrow> string list" where
  "started es = concat (map (\<lambda>ev. case ev of Job_started k \<Rightarrow> [k] | _ \<Rightarrow> []) es)"

definition written_docs :: "event list \<Rightarrow> progress_doc list" where
  "written_docs es = concat (map (\<lambda>ev. case ev of Wrote_progress b d \<Rightarrow> [d] | _ \<Rightarrow> []) es)"

text \<open>
  The invariant of a progress record: as many keys in the set \<^verbatim>\<open>completed\<close> as
  results. For a progress document the set is the one \<^verbatim>\<open>process_batch\<close> builds from
  the stored list; for the running state it is the list without repetitions itself.
\<close>

definition doc_ok :: "progress_doc \<Rightarrow> bool" where
  "doc_ok d = (length (remdups (p_completed d)) = length (p_adaptations d))"

definition file_ok :: "nat \<Rightarrow> world \<Rightarrow> bool" where
  "file_ok b w = (case progress_files w b of None \<Rightarrow> True | Some d \<Rightarrow> doc_ok d)"

definition state_ok :: "run_state \<Rightarrow> bool" where
  "state_ok st = (distinct (completed st) \<and> length (completed st) = length (adaptations st))"

text \<open>The progress on disk is the progress in memory.\<close>

definition synced :: "nat \<Rightarrow> run_state \<Rightarrow> bool" where
  "synced b st =
     (set (fst (load_batch_progress b (world st))) = set (completed st)
      \<and> snd (load_batch_progress b (world st)) = adaptations st)"

text \<open>A result with the four required fields.\<close>

definition complete :: "result \<Rightarrow> bool" where
  "complete r = list_all (has_key r) required_fields"

text \<open>A service that answers every call with a response that passes the validation.\<close>

definition always_valid :: "env \<Rightarrow> bool" where
  "always_valid e =
     (\<forall>n p. \<exists>text r. call_gemini_api e n p = Inr text
        \<and> json_loads e (extract_json text) = Some (JObj r) \<and> complete r)"

text \<open>
  The world after a job that was attempted from the world \<open>w\<close>, where the retry loop
  slept \<open>ds\<close> and left the counters of \<open>w2\<close>: after a success, and after a failure.
\<close>

definition committed_world ::
  "env \<Rightarrow> nat \<Rightarrow> string \<Rightarrow> string list \<Rightarrow> result list \<Rightarrow> int list \<Rightarrow> world \<Rightarrow> world \<Rightarrow> world"
  where
  "committed_world e b key cs ads ds w2 w =
     w\<lparr>calls := calls w2, ticks := ticks w2 + 1,
       trace := trace w @ [Job_started key] @ map Retry_sleep ds
          @ [Wrote_progress b \<lparr>p_batch = b, p_completed = cs, p_adaptations = ads,
                                 p_updated = now_isoformat e (ticks w2)\<rparr>,
             Wrote_output b ads, Job_ok key, Rate_sleep DELAY_BETWEEN_REQUESTS],
       progress_files := (progress_files w)
          (b \<mapsto> \<lparr>p_batch = b, p_completed = cs, p_adaptations = ads,
                  p_updated = now_isoformat e (ticks w2)\<rparr>),
       output_files := (output_files w)(b \<mapsto> ads)\<rparr>"

definition failed_world :: "string \<Rightarrow> int list \<Rightarrow> world \<Rightarrow> world \<Rightarrow> world" where
  "failed_world key ds w2 w =
     w\<lparr>calls := calls w2, ticks := ticks w2,
       trace := trace w @ [Job_started key] @ map Retry_sleep ds
          @ [Job_failed key, Rate_sleep DELAY_BETWEEN_REQUESTS]\<rparr>"

text \<open>A result has an entry whose value is the given string.\<close>

definition mentions :: "result \<Rightarrow> string \<Rightarrow> bool" where
  "mentions r s = list_ex (\<lambda>kv. snd kv = JStr s) r"

section \<open>Sample data\<close>

text \<open>
  Concrete inputs on which the statements below are run. \<open>sample_loads\<close> stands for
  \<^verbatim>\<open>json.loads\<close> on the three texts the samples use: \<^verbatim>\<open>{}\<close> is the empty object,
  \<^verbatim>\<open>ok\<close> abbreviates an object with the four required fields and nothing else, and
  \<^verbatim>\<open>1\<close> is a number; every other text is refused.
\<close>

definition sample_object :: result where
  "sample_object =
     [(''vignette_id'', JStr ''Z''), (''question'', JStr ''q''),
      (''options'', JObj []), (''answer'', JStr ''a'')]"

definition sample_loads :: "pystr \<Rightarrow> json option" where
  "sample_loads s =
     (if s = [123, 125] then Some (JObj [])
      else if s = [111, 107] then Some (JObj sample_object)
      else if s = [49] then Some (JNum 1)
      else None)"

definition sample_env :: "(nat \<Rightarrow> exc + pystr) \<Rightarrow> env" where
  "sample_env outcome =
     \<lparr>call_gemini_api = (\<lambda>n p. outcome n), json_loads = sample_loads,
      now_isoformat = (\<lambda>n. ''2026-01-01T00:00:00'')\<rparr>"

definition sample_vignette :: "string \<Rightarrow> vignette" where
  "sample_vignette vid =
     \<lparr>vignette_id = vid, question = ''q'', options = [], answer = ''a'',
      answer_idx = ''A'', category = Some ''cardiology''\<rparr>"

definition empty_world :: world where
  "empty_world =
     \<lparr>calls = 0, ticks = 0, trace = [], progress_files = Map.empty,
      output_files = Map.empty, log_files = Map.empty, final_output = None,
      merge_log = None\<rparr>"

text \<open>
  The run of the specification's example: two items, two variants, and a checkpoint
  that holds the two jobs of the first item.
\<close>

definition sample_templates :: "(string \<times> template) list" where
  "sample_templates =
     [(''V1'', \<lparr>code = ''A'', description = ''first''\<rparr>),
      (''V2'', \<lparr>code = ''B'', description = ''second''\<rparr>)]"

definition sample_items :: "vignette list" where
  "sample_items = [sample_vignette ''I1'', sample_vignette ''I2'']"

definition checkpoint_doc :: progress_doc where
  "checkpoint_doc =
     \<lparr>p_batch = 1, p_completed = [''I1_V1'', ''I1_V2''],
      p_adaptations = [sample_object, sample_object], p_updated = ''2025-12-31T00:00:00''\<rparr>"

definition checkpoint_world :: world where
  "checkpoint_world =
     empty_world\<lparr>progress_files := [1 \<mapsto> checkpoint_doc],
                 output_files := [1 \<mapsto> [sample_object, sample_object]]\<rparr>"

text \<open>The service answers every call with the text \<^verbatim>\<open>ok\<close> in a fenced block.\<close>

definition good_env :: env where
  "good_env = sample_env (\<lambda>n. Inr (fenced [] [106, 115, 111, 110] [111, 107] [10] []))"

text \<open>The service refuses every call with status 429.\<close>

definition limited_env :: env where
  "limited_env = sample_env (\<lambda>n. Inl (HTTPError 429))"

text \<open>The service answers every call with the empty object, which lacks all four fields.\<close>

definition hollow_env :: env where
  "hollow_env = sample_env (\<lambda>n. Inr [123, 125])"

text \<open>
  What the first job of the first pilot vignette returns when the service answers
  \<^verbatim>\<open>ok\<close>: the object of the answer and the three entries the script adds.
\<close>

definition pilot_template :: template where
  "pilot_template = \<lparr>code = ''UWM'', description = ''Urban upper-class male in Dhaka/Chittagong''\<rparr>"

definition pilot_result :: result where
  "pilot_result =
     [(''vignette_id'', JStr ''Z''), (''question'', JStr ''q''), (''options'', JObj []),
      (''answer'', JStr ''a''), (''category'', JStr ''cardiology''),
      (''model'', JStr ''gemini-2.0-flash''), (''timestamp'', JStr ''2026-01-01T00:00:00'')]"

text \<open>
  Outputs of the batches 1 and 3 on disk, none of batch 2.
\<close>

definition two_outputs_world :: world where
  "two_outputs_world =
     empty_world\<lparr>output_files := [1 \<mapsto> [sample_object, sample_object], 3 \<mapsto> [pilot_result]]\<rparr>"

section \<open>Stripping and cutting\<close>

lemma not_space_backquote: "\<not> py_isspace 96"
  by (simp add: py_isspace_def)

lemma space_line_feed: "py_isspace 10"
  by (simp add: py_isspace_def)

lemma lstrip_Nil: "lstrip [] = []"
  by (simp add: lstrip_def)

lemma rstrip_Nil: "rstrip [] = []"
  by (simp add: rstrip_def)

lemma lstrip_blank_append: "blank pre \<Longrightarrow> lstrip (pre @ s) = lstrip s"
  by (simp add: lstrip_def blank_def dropWhile_append list_all_iff)

lemma rstrip_append_blank: "blank post \<Longrightarrow> rstrip (s @ post) = rstrip s"
  by (simp add: rstrip_def blank_def dropWhile_append list_all_iff)

lemma lstrip_keep: "\<not> py_isspace c \<Longrightarrow> lstrip (c # s) = c # s"
  by (simp add: lstrip_def)

lemma rstrip_keep: "\<not> py_isspace c \<Longrightarrow> rstrip (s @ [c]) = s @ [c]"
  by (simp add: rstrip_def)

lemma rstrip_Cons_keep: "\<not> py_isspace c \<Longrightarrow> rstrip (c # t) = c # rstrip t"
  by (simp add: rstrip_def dropWhile_append)

lemma lstrip_rstrip_lstrip: "lstrip (rstrip (lstrip s)) = rstrip (lstrip s)"
proof (cases "lstrip s")
  case Nil
  show ?thesis unfolding Nil by (simp add: lstrip_Nil rstrip_Nil)
next
  case (Cons c t)
  have nc: "\<not> py_isspace c"
    using Cons hd_dropWhile [of py_isspace s] by (simp add: lstrip_def)
  show ?thesis unfolding Cons using nc by (simp add: rstrip_Cons_keep lstrip_keep)
qed

lemma rstrip_idem: "rstrip (rstrip s) = rstrip s"
  by (simp add: rstrip_def)

lemma strip_idem: "strip (strip s) = strip s"
  by (simp add: strip_def lstrip_rstrip_lstrip rstrip_idem)

lemma rstrip_lstrip_append_blank:
  assumes "blank post"
  shows "rstrip (lstrip (s @ post)) = rstrip (lstrip s)"
proof (cases "blank s")
  case True
  with assms have "lstrip (s @ post) = []" "lstrip s = []"
    by (simp_all add: lstrip_def blank_def list_all_iff)
  then show ?thesis by simp
next
  case False
  then have "lstrip (s @ post) = lstrip s @ post"
    by (auto simp add: lstrip_def blank_def list_all_iff dropWhile_append)
  then show ?thesis using assms by (simp add: rstrip_append_blank)
qed

lemma strip_surround: "blank pre \<Longrightarrow> blank post \<Longrightarrow> strip (pre @ s @ post) = strip s"
  by (simp add: strip_def lstrip_blank_append rstrip_lstrip_append_blank)

lemma strip_append_blank: "blank post \<Longrightarrow> strip (s @ post) = strip s"
  using strip_surround [of "[]" post s] by (simp add: blank_def)

lemma strip_fixed:
  "\<not> py_isspace c \<Longrightarrow> \<not> py_isspace d \<Longrightarrow> strip (c # s @ [d]) = c # s @ [d]"
  using rstrip_keep [of d "c # s"] by (simp add: strip_def lstrip_keep)

lemma split_once_None: "split_once sep s = None \<longleftrightarrow> \<not> contains s sep"
  by (induction s) (auto split: option.splits)

lemma split_once_char: "c \<notin> set a \<Longrightarrow> split_once [c] (a @ c # b) = Some (a, b)"
  by (induction a) (auto simp: startswith_def)

lemma contains_char: "contains (a @ c # b) [c]"
  by (induction a) (auto simp: startswith_def)

lemma rsplit_once_end: "sep \<noteq> [] \<Longrightarrow> rsplit_once sep (p @ sep) = Some (p, [])"
  by (cases "rev sep") (auto simp: rsplit_once_def startswith_def)

lemma contains_self: "contains s s"
  by (cases s) (simp_all add: startswith_def)

lemma contains_end: "contains (p @ sep) sep"
  by (induction p) (simp_all add: contains_self)

text \<open>
  The cut of a fenced block: what is left is the payload, stripped. The opening line is
  dropped at its line feed, whatever the language tag, and the text is cut at the last
  fence.
\<close>

lemma extract_json_fenced:
  assumes "blank pre" "blank gap" "blank post" "10 \<notin> set lang"
  shows "extract_json (fenced pre lang payload gap post) = strip payload"
proof -
  let ?inner = "96 # 96 # lang @ 10 # payload @ gap @ [96, 96]"
  let ?block = "fence @ lang @ newline @ payload @ gap @ fence"
  have s1: "strip (fenced pre lang payload gap post) = ?block"
  proof -
    have "fenced pre lang payload gap post = pre @ (96 # ?inner @ [96]) @ post"
      by (simp add: fenced_def fence_def newline_def)
    then have "strip (fenced pre lang payload gap post) = strip (96 # ?inner @ [96])"
      using assms(1,3) strip_surround by metis
    also have "\<dots> = 96 # ?inner @ [96]"
      by (rule strip_fixed) (rule not_space_backquote)+
    finally show ?thesis by (simp add: fence_def newline_def)
  qed
  have s2: "startswith ?block fence"
    by (simp add: startswith_def fence_def)
  have nl: "10 \<notin> set (fence @ lang)"
    using assms(4) by (simp add: fence_def)
  have s3: "contains ?block newline"
    using contains_char [of "fence @ lang" 10 "payload @ gap @ fence"]
    by (simp add: newline_def)
  have s4: "split_once newline ?block = Some (fence @ lang, payload @ gap @ fence)"
    using split_once_char [OF nl, of "payload @ gap @ fence"] by (simp add: newline_def)
  have s5: "contains (payload @ gap @ fence) fence"
    using contains_end [of "payload @ gap" fence] by simp
  have s6: "rsplit_once fence (payload @ gap @ fence) = Some (payload @ gap, [])"
    using rsplit_once_end [of fence "payload @ gap"] by (simp add: fence_def)
  show ?thesis
    unfolding extract_json_def Let_def s1 using s2 s3 s4 s5 s6 assms(2)
    by (simp add: strip_append_blank)
qed

lemma extract_json_plain:
  "\<not> startswith (strip payload) fence \<Longrightarrow> extract_json payload = strip payload"
  by (simp add: extract_json_def Let_def strip_idem)

section \<open>The loops as folds\<close>

lemma variant_loop_foldl:
  "variant_loop e b v vts st = foldl (\<lambda>s vt. job_step e b v vt s) st vts"
  by (induction vts arbitrary: st) simp_all

lemma vignette_loop_foldl:
  "vignette_loop e b ts vs st =
     foldl (\<lambda>s (v, vt). job_step e b v vt s) st (List.product vs ts)"
proof (induction vs arbitrary: st)
  case Nil
  show ?case by simp
next
  case (Cons v vs)
  have "foldl (\<lambda>s (v, vt). job_step e b v vt s) st (map (Pair v) ts)
          = foldl (\<lambda>s vt. job_step e b v vt s) st ts"
    by (induction ts arbitrary: st) simp_all
  then show ?case by (simp add: Cons variant_loop_foldl)
qed

section \<open>The merge loop\<close>

lemma batch_numbers: "map fst BATCH_CONFIG = [1, 2, 3]"
  by (simp add: BATCH_CONFIG_def)

lemma merge_loop_eq:
  assumes "output_files w = output_files w0"
  shows "merge_loop bs acc w
           = (acc @ merged w0 bs, w\<lparr>trace := trace w @ map (report w0) bs\<rparr>)"
  using assms
proof (induction bs arbitrary: acc w)
  case Nil
  then show ?case by (simp add: merged_def)
next
  case (Cons b bs)
  show ?case
  proof (cases "output_files w0 b")
    case None
    then show ?thesis
      using Cons.prems Cons.IH [of "emit (Batch_not_found b) w" acc]
      by (simp add: emit_def merged_def batch_data_def report_def)
  next
    case (Some d)
    then show ?thesis
      using Cons.prems Cons.IH [of "emit (Batch_loaded b (length d)) w" "acc @ d"]
      by (simp add: emit_def merged_def batch_data_def report_def)
  qed
qed

lemma length_merged:
  "length (merged w bs) = sum_list (map (\<lambda>b. length (batch_data w b)) bs)"
  by (simp add: merged_def length_concat comp_def)

lemma merge_batches_eq:
  "merge_batches e bs w =
     (if merged w bs \<noteq> [] then
        w\<lparr>ticks := ticks w + 1,
          trace := trace w @ map (report w) bs
                   @ [Wrote_final (merged w bs),
                      Wrote_merge_log \<lparr>m_merged_at = now_isoformat e (ticks w),
                         m_total = length (merged w bs), m_batches = bs\<rparr>],
          final_output := Some (merged w bs),
          merge_log := Some \<lparr>m_merged_at = now_isoformat e (ticks w),
                         m_total = length (merged w bs), m_batches = bs\<rparr>\<rparr>
      else w\<lparr>trace := trace w @ map (report w) bs @ [Nothing_to_merge]\<rparr>)"
  by (simp add: merge_batches_def merge_loop_eq [OF refl] emit_def Let_def)

lemma merged_nonempty:
  "merged w bs \<noteq> [] \<longleftrightarrow> list_ex (\<lambda>b. batch_data w b \<noteq> []) bs"
  by (simp add: merged_def list_ex_iff)

lemma not_write_report: "\<not> is_merge_write (report w b)"
  by (simp add: report_def split: option.splits)

section \<open>The retry loop\<close>

lemma try_body_raised: "call_gemini_api e n p = Inl x \<Longrightarrow> try_body e p v n stamp = Inl x"
  by (simp add: try_body_def)

lemma try_body_success:
  "try_body e p v n stamp = Inr r' \<Longrightarrow>
   \<exists>text r. call_gemini_api e n p = Inr text
     \<and> json_loads e (extract_json text) = Some (JObj r)
     \<and> list_all (has_key r) required_fields
     \<and> r' = add_metadata v stamp r"
  by (auto simp: try_body_def split: sum.splits option.splits json.splits if_splits)

text \<open>One turn of the loop: it returns a result, gives up, or sleeps and goes on.\<close>

lemma attempts_Cons_cases:
  assumes "attempts e p v (a # as) rd w = (res, w')"
  obtains
    (returned) r where "try_body e p v (calls w) (now_isoformat e (ticks w)) = Inr r"
      and "res = Some r" and "w' = w\<lparr>calls := calls w + 1, ticks := ticks w + 1\<rparr>"
  | (gave_up) x where "try_body e p v (calls w) (now_isoformat e (ticks w)) = Inl x"
      and "res = None" and "w' = w\<lparr>calls := calls w + 1\<rparr>"
  | (again) x rd' d where "try_body e p v (calls w) (now_isoformat e (ticks w)) = Inl x"
      and "attempts e p v as rd' (emit (Retry_sleep d) (w\<lparr>calls := calls w + 1\<rparr>)) = (res, w')"
proof (cases "try_body e p v (calls w) (now_isoformat e (ticks w))")
  case (Inr r)
  with assms have "res = Some r" "w' = w\<lparr>calls := calls w + 1, ticks := ticks w + 1\<rparr>"
    by (simp_all add: Let_def)
  with Inr show ?thesis by (rule returned)
next
  case (Inl x)
  show ?thesis
  proof (cases x)
    case (HTTPError c)
    consider "c = 429" | "c = 503" | "c \<noteq> 429" "c \<noteq> 503" "a = MAX_RETRIES - 1"
      | "c \<noteq> 429" "c \<noteq> 503" "a \<noteq> MAX_RETRIES - 1" by blast
    then show ?thesis
    proof cases
      case 1
      with assms Inl HTTPError
      have "attempts e p v as (rd * 2) (emit (Retry_sleep (min rd MAX_RETRY_DELAY)) (w\<lparr>calls := calls w + 1\<rparr>)) = (res, w')"
        by (simp add: Let_def)
      with Inl show ?thesis by (rule again)
    next
      case 2
      with assms Inl HTTPError
      have "attempts e p v as rd (emit (Retry_sleep 30) (w\<lparr>calls := calls w + 1\<rparr>)) = (res, w')"
        by (simp add: Let_def)
      with Inl show ?thesis by (rule again)
    next
      case 3
      with assms Inl HTTPError have "res = None" "w' = w\<lparr>calls := calls w + 1\<rparr>"
        by (simp_all add: Let_def)
      with Inl show ?thesis by (rule gave_up)
    next
      case 4
      with assms Inl HTTPError
      have "attempts e p v as rd (emit (Retry_sleep 30) (w\<lparr>calls := calls w + 1\<rparr>)) = (res, w')"
        by (simp add: Let_def)
      with Inl show ?thesis by (rule again)
    qed
  next
    case JSONDecodeError
    show ?thesis
    proof (cases "a = MAX_RETRIES - 1")
      case True
      with assms Inl JSONDecodeError have "res = None" "w' = w\<lparr>calls := calls w + 1\<rparr>"
        by (simp_all add: Let_def)
      with Inl show ?thesis by (rule gave_up)
    next
      case False
      with assms Inl JSONDecodeError
      have "attempts e p v as rd (emit (Retry_sleep 10) (w\<lparr>calls := calls w + 1\<rparr>)) = (res, w')"
        by (simp add: Let_def)
      with Inl show ?thesis by (rule again)
    qed
  next
    case Exception
    show ?thesis
    proof (cases "a = MAX_RETRIES - 1")
      case True
      with assms Inl Exception have "res = None" "w' = w\<lparr>calls := calls w + 1\<rparr>"
        by (simp_all add: Let_def)
      with Inl show ?thesis by (rule gave_up)
    next
      case False
      with assms Inl Exception
      have "attempts e p v as rd (emit (Retry_sleep 15) (w\<lparr>calls := calls w + 1\<rparr>)) = (res, w')"
        by (simp add: Let_def)
      with Inl show ?thesis by (rule again)
    qed
  qed
qed

lemma attempts_success:
  "attempts e p v as rd w = (Some r', w') \<Longrightarrow>
   \<exists>text r. call_gemini_api e (calls w' - 1) p = Inr text
     \<and> json_loads e (extract_json text) = Some (JObj r)
     \<and> list_all (has_key r) required_fields
     \<and> r' = add_metadata v (now_isoformat e (ticks w)) r
     \<and> ticks w' = ticks w + 1 \<and> calls w < calls w'"
proof (induction as arbitrary: rd w)
  case Nil
  then show ?case by simp
next
  case (Cons a as)
  from Cons.prems show ?case
  proof (cases rule: attempts_Cons_cases)
    case (returned r)
    then show ?thesis using try_body_success [OF returned(1)] by auto
  next
    case (gave_up x)
    then show ?thesis by simp
  next
    case (again x rd' d)
    from Cons.IH [OF again(2)] show ?thesis by (auto simp: emit_def)
  qed
qed

text \<open>The retry loop touches no file: it counts calls, reads the clock and sleeps.\<close>

lemma attempts_frame:
  "attempts e p v as rd w = (res, w') \<Longrightarrow>
   \<exists>ds. w' = w\<lparr>calls := calls w', ticks := ticks w', trace := trace w @ map Retry_sleep ds\<rparr>"
proof (induction as arbitrary: rd w)
  case Nil
  then show ?case by (auto intro: exI [of _ "[]"])
next
  case (Cons a as)
  from Cons.prems show ?case
  proof (cases rule: attempts_Cons_cases)
    case (returned r)
    then show ?thesis by (auto intro!: exI [of _ "[]"])
  next
    case (gave_up x)
    then show ?thesis by (auto intro!: exI [of _ "[]"])
  next
    case (again x rd' d)
    from Cons.IH [OF again(2)] obtain ds where
      "w' = (emit (Retry_sleep d) (w\<lparr>calls := calls w + 1\<rparr>))
              \<lparr>calls := calls w', ticks := ticks w',
               trace := trace (emit (Retry_sleep d) (w\<lparr>calls := calls w + 1\<rparr>))
                        @ map Retry_sleep ds\<rparr>"
      by blast
    then have "w' = w\<lparr>calls := calls w', ticks := ticks w',
                      trace := trace w @ map Retry_sleep (d # ds)\<rparr>"
      by (simp add: emit_def)
    then show ?thesis by blast
  qed
qed

text \<open>A job whose every call is refused with status 429.\<close>

lemma attempts_all_429:
  "\<forall>i<length as. call_gemini_api e (calls w + i) p = Inl (HTTPError 429) \<Longrightarrow>
   attempts e p v as rd w =
     (None, w\<lparr>calls := calls w + length as,
              trace := trace w
                @ map (\<lambda>i. Retry_sleep (min (rd * 2 ^ i) MAX_RETRY_DELAY)) [0..<length as]\<rparr>)"
proof (induction as arbitrary: rd w)
  case Nil
  then show ?case by simp
next
  case (Cons a as)
  let ?w = "emit (Retry_sleep (min rd MAX_RETRY_DELAY)) (w\<lparr>calls := calls w + 1\<rparr>)"
  have first: "try_body e p v (calls w) stamp = Inl (HTTPError 429)" for stamp
    using Cons.prems [rule_format, of 0] by (simp add: try_body_raised)
  have rest: "\<forall>i<length as. call_gemini_api e (calls ?w + i) p = Inl (HTTPError 429)"
    using Cons.prems by (auto simp: emit_def)
  have shift:
    "map (\<lambda>i. Retry_sleep (min (rd * 2 ^ i) MAX_RETRY_DELAY)) [0..<Suc (length as)]
       = Retry_sleep (min rd MAX_RETRY_DELAY)
         # map (\<lambda>i. Retry_sleep (min (rd * 2 * 2 ^ i) MAX_RETRY_DELAY)) [0..<length as]"
    by (simp add: map_upt_Suc del: upt_Suc) (simp add: mult.assoc)
  show ?case
    using Cons.IH [OF rest, of "rd * 2"] first
    by (simp add: shift Let_def del: upt_Suc) (simp add: emit_def)
qed

section \<open>One job of the run\<close>

lemma adapt_frame:
  assumes "adapt_single_vignette e v vt t w = (res, w')"
  obtains c k ds where "w' = w\<lparr>calls := c, ticks := k, trace := trace w @ map Retry_sleep ds\<rparr>"
  using assms attempts_frame unfolding adapt_single_vignette_def by blast

lemma job_step_cases:
  fixes e b v vt st
  defines "key \<equiv> job_key (vignette_id v) (fst vt)"
  obtains
    (skipped) "key \<in> set (completed st)" and "job_step e b v vt st = st"
  | (committed) r w2 ds where "key \<notin> set (completed st)"
      and "adapt_single_vignette e v (fst vt) (snd vt) (emit (Job_started key) (world st)) = (Some r, w2)"
      and "job_step e b v vt st =
             st\<lparr>completed := key # completed st, adaptations := adaptations st @ [r],
                world := committed_world e b key (key # completed st) (adaptations st @ [r]) ds w2 (world st)\<rparr>"
  | (unsuccessful) res w2 ds where "key \<notin> set (completed st)"
      and "adapt_single_vignette e v (fst vt) (snd vt) (emit (Job_started key) (world st)) = (res, w2)"
      and "res = None \<or> res = Some []"
      and "job_step e b v vt st =
             st\<lparr>failed := failed st @ [key], world := failed_world key ds w2 (world st)\<rparr>"
proof (cases "key \<in> set (completed st)")
  case True
  then have "job_step e b v vt st = st"
    by (simp add: job_step_def key_def Let_def)
  with True show ?thesis by (rule skipped)
next
  case False
  obtain res w2 where a: "adapt_single_vignette e v (fst vt) (snd vt) (emit (Job_started key) (world st)) = (res, w2)"
    by (cases "adapt_single_vignette e v (fst vt) (snd vt) (emit (Job_started key) (world st))")
  from a obtain c k ds where
    w2: "w2 = (emit (Job_started key) (world st))\<lparr>calls := c, ticks := k,
            trace := trace (emit (Job_started key) (world st)) @ map Retry_sleep ds\<rparr>"
    by (rule adapt_frame)
  show ?thesis
  proof (cases "res = None \<or> res = Some []")
    case True
    have "job_step e b v vt st =
             st\<lparr>failed := failed st @ [key], world := failed_world key ds w2 (world st)\<rparr>"
      using False a True
      unfolding w2
      by (auto simp add: job_step_def key_def [symmetric] Let_def mark_failed_def
          emit_def failed_world_def)
    with False a True show ?thesis by (rule unsuccessful)
  next
    case nt: False
    then obtain r where r: "res = Some r" "r \<noteq> []" by (cases res) auto
    have "job_step e b v vt st =
             st\<lparr>completed := key # completed st, adaptations := adaptations st @ [r],
                world := committed_world e b key (key # completed st) (adaptations st @ [r]) ds w2 (world st)\<rparr>"
      using False a r
      unfolding w2
      by (simp add: job_step_def key_def [symmetric] Let_def commit_def
          save_batch_progress_def emit_def committed_world_def)
    with False a [unfolded r(1)] show ?thesis by (rule committed)
  qed
qed

section \<open>What one job does to the state\<close>

lemma started_append: "started (xs @ ys) = started xs @ started ys"
  by (simp add: started_def)

lemma started_retry: "started (map Retry_sleep ds) = []"
  by (induction ds) (simp_all add: started_def)

lemma written_docs_append: "written_docs (xs @ ys) = written_docs xs @ written_docs ys"
  by (simp add: written_docs_def)

lemma written_docs_Nil: "written_docs [] = []"
  by (simp add: written_docs_def)

lemma written_docs_Cons:
  "written_docs (ev # es) = (case ev of Wrote_progress b d \<Rightarrow> [d] | _ \<Rightarrow> []) @ written_docs es"
  by (simp add: written_docs_def)

lemma written_docs_retry: "written_docs (map Retry_sleep ds) = []"
  by (induction ds) (simp_all add: written_docs_def)

lemma pacing_retry: "filter pacing (map Retry_sleep ds) = []"
  by (induction ds) simp_all

lemma job_step_pacing:
  "filter pacing (trace (world (job_step e b v vt st)))
     = filter pacing (trace (world st))
       @ (if job_key (vignette_id v) (fst vt) \<in> set (completed st) then []
          else [Job_started (job_key (vignette_id v) (fst vt)), Rate_sleep DELAY_BETWEEN_REQUESTS])"
  by (cases e b v vt st rule: job_step_cases)
    (simp_all add: committed_world_def failed_world_def pacing_retry)

lemma job_step_started:
  "started (trace (world (job_step e b v vt st)))
     = started (trace (world st))
       @ (if key_of (v, vt) \<in> set (completed st) then [] else [key_of (v, vt)])"
  by (cases e b v vt st rule: job_step_cases)
    (simp_all add: committed_world_def failed_world_def started_append started_retry key_of_def,
     simp_all add: started_def)

lemma job_step_completed:
  "set (completed st) \<subseteq> set (completed (job_step e b v vt st))
   \<and> set (completed (job_step e b v vt st)) \<subseteq> insert (key_of (v, vt)) (set (completed st))"
  by (cases e b v vt st rule: job_step_cases) (auto simp: key_of_def)

lemma job_step_adaptations:
  "adaptations (job_step e b v vt st) = adaptations st
   \<or> (\<exists>r. complete r \<and> key_of (v, vt) \<notin> set (completed st)
         \<and> set (completed (job_step e b v vt st)) = insert (key_of (v, vt)) (set (completed st))
         \<and> adaptations (job_step e b v vt st) = adaptations st @ [r])"
proof (cases e b v vt st rule: job_step_cases)
  case skipped
  then show ?thesis by simp
next
  case (committed r w2 ds)
  from attempts_success [OF committed(2) [unfolded adapt_single_vignette_def]]
  obtain r0 stamp where "list_all (has_key r0) required_fields" "r = add_metadata v stamp r0"
    by blast
  then have "complete r"
    by (simp add: complete_def add_metadata_def has_key_def required_fields_def update_conv')
  then show ?thesis using committed by (auto simp: key_of_def)
next
  case (unsuccessful res w2 ds)
  then show ?thesis by simp
qed

lemma job_step_state_ok: "state_ok st \<Longrightarrow> state_ok (job_step e b v vt st)"
  by (cases e b v vt st rule: job_step_cases) (simp_all add: state_ok_def)

lemma job_step_synced: "synced b st \<Longrightarrow> synced b (job_step e b v vt st)"
  by (cases e b v vt st rule: job_step_cases)
    (simp_all add: synced_def load_batch_progress_def committed_world_def failed_world_def)

lemma job_step_docs:
  "state_ok st \<Longrightarrow> list_all doc_ok (written_docs (trace (world st))) \<Longrightarrow>
   list_all doc_ok (written_docs (trace (world (job_step e b v vt st))))"
  by (cases e b v vt st rule: job_step_cases)
    (simp_all add: committed_world_def failed_world_def written_docs_append written_docs_retry
      written_docs_Cons written_docs_Nil state_ok_def doc_ok_def distinct_remdups_id)

lemma job_step_file_ok:
  "state_ok st \<Longrightarrow> file_ok b (world st) \<Longrightarrow> file_ok b (world (job_step e b v vt st))"
  by (cases e b v vt st rule: job_step_cases)
    (simp_all add: committed_world_def failed_world_def file_ok_def state_ok_def doc_ok_def
      distinct_remdups_id)


section \<open>What the loops do to the state\<close>

lemma run_jobs_Nil: "run_jobs e b [] st = st"
  by (simp add: run_jobs_def)

lemma run_jobs_Cons: "run_jobs e b ((v, vt) # js) st = run_jobs e b js (job_step e b v vt st)"
  by (simp add: run_jobs_def)

lemma run_loops_jobs:
  "run_loops e b ts vs w = run_jobs e b (List.product vs ts) (start_state b w)"
  by (simp add: run_loops_def run_jobs_def vignette_loop_foldl)

lemma run_jobs_pacing:
  "\<exists>ks. filter pacing (trace (world (run_jobs e b js st)))
     = filter pacing (trace (world st))
       @ concat (map (\<lambda>k. [Job_started k, Rate_sleep DELAY_BETWEEN_REQUESTS]) ks)"
proof (induction js arbitrary: st)
  case Nil
  show ?case by (simp add: run_jobs_Nil exI [of _ "[]"])
next
  case (Cons j js)
  obtain v vt where j: "j = (v, vt)" by (cases j)
  let ?key = "job_key (vignette_id v) (fst vt)"
  from Cons [of "job_step e b v vt st"] obtain ks where
    ks: "filter pacing (trace (world (run_jobs e b js (job_step e b v vt st))))
      = filter pacing (trace (world (job_step e b v vt st)))
        @ concat (map (\<lambda>k. [Job_started k, Rate_sleep DELAY_BETWEEN_REQUESTS]) ks)"
    by blast
  show ?case
  proof (cases "?key \<in> set (completed st)")
    case True
    then show ?thesis using ks by (auto simp: j run_jobs_Cons job_step_pacing)
  next
    case False
    then have "filter pacing (trace (world (run_jobs e b (j # js) st)))
      = filter pacing (trace (world st))
        @ concat (map (\<lambda>k. [Job_started k, Rate_sleep DELAY_BETWEEN_REQUESTS]) (?key # ks))"
      using ks by (simp add: j run_jobs_Cons job_step_pacing)
    then show ?thesis by blast
  qed
qed

lemma run_jobs_started:
  "distinct (map key_of js) \<Longrightarrow>
   started (trace (world (run_jobs e b js st)))
     = started (trace (world st)) @ filter (\<lambda>k. k \<notin> set (completed st)) (map key_of js)"
proof (induction js arbitrary: st)
  case Nil
  show ?case by (simp add: run_jobs_Nil)
next
  case (Cons j js)
  obtain v vt where j: "j = (v, vt)" by (cases j)
  let ?st = "job_step e b v vt st"
  from Cons.prems have d: "distinct (map key_of js)" and n: "key_of (v, vt) \<notin> set (map key_of js)"
    by (simp_all add: j)
  have same: "filter (\<lambda>k. k \<notin> set (completed ?st)) (map key_of js)
                = filter (\<lambda>k. k \<notin> set (completed st)) (map key_of js)"
  proof (rule filter_cong [OF refl])
    fix k assume "k \<in> set (map key_of js)"
    then have "k \<noteq> key_of (v, vt)" using n by blast
    then show "(k \<notin> set (completed ?st)) = (k \<notin> set (completed st))"
      using job_step_completed [of st e b v vt] by blast
  qed
  show ?case
    using Cons.IH [OF d, of ?st]
    by (simp add: j run_jobs_Cons job_step_started same)
qed

lemma run_jobs_state_ok: "state_ok st \<Longrightarrow> state_ok (run_jobs e b js st)"
  by (induction js arbitrary: st) (auto simp: run_jobs_Nil run_jobs_Cons job_step_state_ok)

lemma run_jobs_synced: "synced b st \<Longrightarrow> synced b (run_jobs e b js st)"
  by (induction js arbitrary: st) (auto simp: run_jobs_Nil run_jobs_Cons job_step_synced)

lemma run_jobs_docs:
  "state_ok st \<Longrightarrow> list_all doc_ok (written_docs (trace (world st))) \<Longrightarrow>
   list_all doc_ok (written_docs (trace (world (run_jobs e b js st))))"
  by (induction js arbitrary: st)
    (auto simp: run_jobs_Nil run_jobs_Cons job_step_state_ok job_step_docs)

lemma run_jobs_file_ok:
  "state_ok st \<Longrightarrow> file_ok b (world st) \<Longrightarrow> file_ok b (world (run_jobs e b js st))"
  by (induction js arbitrary: st)
    (auto simp: run_jobs_Nil run_jobs_Cons job_step_state_ok job_step_file_ok)

lemma run_jobs_completed_mono: "set (completed st) \<subseteq> set (completed (run_jobs e b js st))"
proof (induction js arbitrary: st)
  case Nil
  show ?case by (simp add: run_jobs_Nil)
next
  case (Cons j js)
  obtain v vt where j: "j = (v, vt)" by (cases j)
  show ?case
    using Cons [of "job_step e b v vt st"] job_step_completed [of st e b v vt]
    by (auto simp: j run_jobs_Cons)
qed

lemma run_jobs_completed_bound:
  "set (completed (run_jobs e b js st)) \<subseteq> set (completed st) \<union> set (map key_of js)"
proof (induction js arbitrary: st)
  case Nil
  show ?case by (simp add: run_jobs_Nil)
next
  case (Cons j js)
  obtain v vt where j: "j = (v, vt)" by (cases j)
  show ?case
    using Cons [of "job_step e b v vt st"] job_step_completed [of st e b v vt]
    by (auto simp: j run_jobs_Cons)
qed

lemma run_jobs_adaptations:
  "\<exists>new. adaptations (run_jobs e b js st) = adaptations st @ new \<and> list_all complete new"
proof (induction js arbitrary: st)
  case Nil
  show ?case by (simp add: run_jobs_Nil)
next
  case (Cons j js)
  obtain v vt where j: "j = (v, vt)" by (cases j)
  from Cons [of "job_step e b v vt st"] obtain new where
    new: "adaptations (run_jobs e b js (job_step e b v vt st))
            = adaptations (job_step e b v vt st) @ new" "list_all complete new"
    by blast
  from job_step_adaptations [of e b v vt st] show ?case
  proof
    assume "adaptations (job_step e b v vt st) = adaptations st"
    then show ?thesis using new by (simp add: j run_jobs_Cons)
  next
    assume "\<exists>r. complete r \<and> key_of (v, vt) \<notin> set (completed st)
         \<and> set (completed (job_step e b v vt st)) = insert (key_of (v, vt)) (set (completed st))
         \<and> adaptations (job_step e b v vt st) = adaptations st @ [r]"
    then obtain r where "complete r" "adaptations (job_step e b v vt st) = adaptations st @ [r]"
      by blast
    then have "adaptations (run_jobs e b (j # js) st) = adaptations st @ (r # new)"
      "list_all complete (r # new)"
      using new by (simp_all add: j run_jobs_Cons)
    then show ?thesis by blast
  qed
qed

lemma start_state_ok: "file_ok b w \<Longrightarrow> state_ok (start_state b w)"
  by (auto simp: file_ok_def state_ok_def start_state_def load_batch_progress_def doc_ok_def
      split: option.splits)

lemma start_state_synced: "synced b (start_state b w)"
  by (simp add: synced_def start_state_def Let_def)

lemma start_state_world: "world (start_state b w) = w"
  by (simp add: start_state_def Let_def)

section \<open>The whole run\<close>

lemma write_run_log_trace:
  "\<exists>lg. trace (write_run_log e b rng ts st) = trace (world st) @ [Wrote_log b lg]"
  by (simp add: write_run_log_def Let_def emit_def)

lemma write_run_log_progress:
  "load_batch_progress b' (write_run_log e b rng ts st) = load_batch_progress b' (world st)"
  by (simp add: write_run_log_def Let_def emit_def load_batch_progress_def)

lemma write_run_log_file_ok: "file_ok b' (write_run_log e b rng ts st) = file_ok b' (world st)"
  by (simp add: write_run_log_def Let_def emit_def file_ok_def)

lemma run_batch_eq:
  "run_batch e b rng ts vs w =
     (if total_for_batch vs ts = length (completed (start_state b w)) then w
      else write_run_log e b rng ts (run_jobs e b (List.product vs ts) (start_state b w)))"
  by (simp add: run_batch_def Let_def run_loops_jobs)

lemma run_batch_pacing:
  "\<exists>ks. filter pacing (trace (run_batch e b rng ts vs w))
     = filter pacing (trace w)
       @ concat (map (\<lambda>k. [Job_started k, Rate_sleep DELAY_BETWEEN_REQUESTS]) ks)"
proof (cases "total_for_batch vs ts = length (completed (start_state b w))")
  case True
  then show ?thesis by (simp add: run_batch_eq exI [of _ "[]"])
next
  case False
  from write_run_log_trace [of e b rng ts "run_jobs e b (List.product vs ts) (start_state b w)"]
  obtain lg where "trace (write_run_log e b rng ts (run_jobs e b (List.product vs ts) (start_state b w)))
      = trace (world (run_jobs e b (List.product vs ts) (start_state b w))) @ [Wrote_log b lg]"
    by blast
  with run_jobs_pacing [of e b "List.product vs ts" "start_state b w"] False
  show ?thesis by (simp add: run_batch_eq start_state_world)
qed

lemma job_step_last:
  "job_key (vignette_id v) (fst vt) \<notin> set (completed st) \<Longrightarrow>
   last (trace (world (job_step e b v vt st))) = Rate_sleep DELAY_BETWEEN_REQUESTS"
  by (cases e b v vt st rule: job_step_cases)
    (simp_all add: committed_world_def failed_world_def)

lemma job_step_skip:
  "job_key (vignette_id v) (fst vt) \<in> set (completed st) \<Longrightarrow> job_step e b v vt st = st"
  by (simp add: job_step_def Let_def)

lemma job_step_commit_or_not:
  "(completed (job_step e b v vt st) = completed st
      \<and> adaptations (job_step e b v vt st) = adaptations st)
   \<or> (\<exists>r. key_of (v, vt) \<notin> set (completed st)
         \<and> set (completed (job_step e b v vt st)) = insert (key_of (v, vt)) (set (completed st))
         \<and> length (completed (job_step e b v vt st)) = length (completed st) + 1
         \<and> adaptations (job_step e b v vt st) = adaptations st @ [r])"
  by (cases e b v vt st rule: job_step_cases) (auto simp: key_of_def)

lemma run_batch_docs:
  assumes "file_ok b w" and "list_all doc_ok (written_docs (trace w))"
  shows "list_all doc_ok (written_docs (trace (run_batch e b rng ts vs w)))"
proof (cases "total_for_batch vs ts = length (completed (start_state b w))")
  case True
  then show ?thesis using assms by (simp add: run_batch_eq)
next
  case False
  let ?st = "run_jobs e b (List.product vs ts) (start_state b w)"
  have "list_all doc_ok (written_docs (trace (world ?st)))"
    using assms by (intro run_jobs_docs start_state_ok) (simp_all add: start_state_world)
  moreover obtain lg where "trace (write_run_log e b rng ts ?st) = trace (world ?st) @ [Wrote_log b lg]"
    using write_run_log_trace by blast
  ultimately show ?thesis using False
    by (simp add: run_batch_eq written_docs_append written_docs_Cons written_docs_Nil)
qed

lemma run_batch_file_ok:
  assumes "file_ok b w"
  shows "file_ok b (run_batch e b rng ts vs w)"
proof -
  have "file_ok b (world (run_jobs e b (List.product vs ts) (start_state b w)))"
    using assms by (intro run_jobs_file_ok start_state_ok) (simp_all add: start_state_world)
  then show ?thesis using assms by (simp add: run_batch_eq write_run_log_file_ok)
qed

lemma run_batch_progress:
  "load_batch_progress b (run_batch e b rng ts vs w) = load_batch_progress b w
   \<or> (set (fst (load_batch_progress b (run_batch e b rng ts vs w)))
         = set (completed (run_jobs e b (List.product vs ts) (start_state b w)))
       \<and> snd (load_batch_progress b (run_batch e b rng ts vs w))
         = adaptations (run_jobs e b (List.product vs ts) (start_state b w))
       \<and> total_for_batch vs ts \<noteq> length (completed (start_state b w)))"
proof (cases "total_for_batch vs ts = length (completed (start_state b w))")
  case True
  then show ?thesis by (simp add: run_batch_eq)
next
  case False
  have "synced b (run_jobs e b (List.product vs ts) (start_state b w))"
    by (intro run_jobs_synced start_state_synced)
  then show ?thesis using False
    by (simp add: run_batch_eq write_run_log_progress synced_def)
qed

lemma start_state_loaded:
  "set (completed (start_state b w)) = set (fst (load_batch_progress b w))"
  "adaptations (start_state b w) = snd (load_batch_progress b w)"
  by (simp_all add: start_state_def Let_def)

lemma run_batch_grows:
  "set (fst (load_batch_progress b w)) \<subseteq> set (fst (load_batch_progress b (run_batch e b rng ts vs w)))
   \<and> prefix (snd (load_batch_progress b w)) (snd (load_batch_progress b (run_batch e b rng ts vs w)))"
proof -
  let ?st = "run_jobs e b (List.product vs ts) (start_state b w)"
  have "set (fst (load_batch_progress b w)) \<subseteq> set (completed ?st)"
    using run_jobs_completed_mono [of "start_state b w" e b "List.product vs ts"]
    by (simp add: start_state_loaded)
  moreover have "prefix (snd (load_batch_progress b w)) (adaptations ?st)"
    using run_jobs_adaptations [of e b "List.product vs ts" "start_state b w"]
    by (auto simp: start_state_loaded)
  ultimately show ?thesis
    using run_batch_progress [of b e rng ts vs w] by auto
qed

lemma add_metadata_nonempty: "add_metadata v stamp r \<noteq> []"
  by (cases r) (simp_all add: add_metadata_def)

lemma adapt_always_valid:
  assumes "always_valid e"
  shows "\<exists>r w2. adapt_single_vignette e v vt t w = (Some r, w2) \<and> r \<noteq> []"
proof -
  from assms obtain reply r where
    "call_gemini_api e (calls w) (v, vt, t) = Inr reply"
    "json_loads e (extract_json reply) = Some (JObj r)" "complete r"
    unfolding always_valid_def by blast
  then have "try_body e (v, vt, t) v (calls w) (now_isoformat e (ticks w))
               = Inr (add_metadata v (now_isoformat e (ticks w)) r)"
    by (simp add: try_body_def complete_def)
  moreover have "[0..<MAX_RETRIES] = 0 # [1..<MAX_RETRIES]"
    by (simp add: MAX_RETRIES_def upt_conv_Cons)
  ultimately show ?thesis
    by (simp add: adapt_single_vignette_def Let_def add_metadata_nonempty)
qed

lemma job_step_always_valid:
  assumes "always_valid e"
  shows "set (completed (job_step e b v vt st)) = insert (key_of (v, vt)) (set (completed st))"
proof (cases e b v vt st rule: job_step_cases)
  case skipped
  then show ?thesis by (auto simp: key_of_def)
next
  case (committed r w2 ds)
  then show ?thesis by (simp add: key_of_def)
next
  case (unsuccessful res w2 ds)
  with adapt_always_valid [OF assms, of v "fst vt" "snd vt"
      "emit (Job_started (job_key (vignette_id v) (fst vt))) (world st)"]
  show ?thesis by auto
qed

lemma run_jobs_always_valid:
  "always_valid e \<Longrightarrow>
   set (completed (run_jobs e b js st)) = set (completed st) \<union> set (map key_of js)"
proof (induction js arbitrary: st)
  case Nil
  show ?case by (simp add: run_jobs_Nil)
next
  case (Cons j js)
  obtain v vt where j: "j = (v, vt)" by (cases j)
  show ?case
    using Cons.IH [OF Cons.prems, of "job_step e b v vt st"] job_step_always_valid [OF Cons.prems, of b v vt st]
    by (simp add: j run_jobs_Cons)
qed

lemma all_completed:
  assumes "distinct ks" and "set cs \<subseteq> set ks" and "length ks = length (remdups cs)"
  shows "set cs = set ks"
proof -
  have "card (set cs) = card (set ks)"
    using assms(1,3) by (simp add: distinct_card length_remdups_card_conv)
  with assms(2) show ?thesis by (simp add: card_subset_eq)
qed

lemma started_write_run_log:
  "started (trace (write_run_log e b rng ts st)) = started (trace (world st))"
  by (simp add: write_run_log_def Let_def emit_def started_def)

lemma length_jobs: "length (map key_of (List.product vs ts)) = total_for_batch vs ts"
  by (simp add: total_for_batch_def)

lemma run_batch_started:
  assumes "distinct (map key_of (List.product vs ts))"
    and "set (fst (load_batch_progress b w)) \<subseteq> set (map key_of (List.product vs ts))"
  shows "started (trace (run_batch e b rng ts vs w))
           = started (trace w)
             @ filter (\<lambda>k. k \<notin> set (fst (load_batch_progress b w)))
                 (map key_of (List.product vs ts))"
proof (cases "total_for_batch vs ts = length (completed (start_state b w))")
  case True
  then have "length (map key_of (List.product vs ts))
               = length (remdups (fst (load_batch_progress b w)))"
    by (simp add: total_for_batch_def start_state_def Let_def)
  from all_completed [OF assms this]
  have "filter (\<lambda>k. k \<notin> set (fst (load_batch_progress b w))) (map key_of (List.product vs ts)) = []"
    by (simp add: filter_empty_conv)
  then show ?thesis using True by (simp add: run_batch_eq)
next
  case False
  then show ?thesis
    using run_jobs_started [OF assms(1), of e b "start_state b w"]
    by (simp add: run_batch_eq started_write_run_log start_state_world start_state_loaded)
qed

lemma run_batch_all_done:
  assumes "distinct (map key_of (List.product vs ts))"
    and "set (fst (load_batch_progress b w)) \<subseteq> set (map key_of (List.product vs ts))"
    and "always_valid e"
  shows "set (fst (load_batch_progress b (run_batch e b rng ts vs w)))
           = set (map key_of (List.product vs ts))"
proof (cases "total_for_batch vs ts = length (completed (start_state b w))")
  case True
  then have "length (map key_of (List.product vs ts))
               = length (remdups (fst (load_batch_progress b w)))"
    by (simp add: total_for_batch_def start_state_def Let_def)
  from all_completed [OF assms(1,2) this] show ?thesis using True by (simp add: run_batch_eq)
next
  case False
  have "synced b (run_jobs e b (List.product vs ts) (start_state b w))"
    by (intro run_jobs_synced start_state_synced)
  then show ?thesis
    using False assms(2) run_jobs_always_valid [OF assms(3), of b "List.product vs ts" "start_state b w"]
    by (auto simp add: run_batch_eq write_run_log_progress synced_def start_state_loaded)
qed

section \<open>The sample run\<close>

lemma sample_keys:
  "map key_of (List.product sample_items sample_templates)
     = [''I1_V1'', ''I1_V2'', ''I2_V1'', ''I2_V2'']"
  by (simp add: sample_items_def sample_templates_def sample_vignette_def key_of_def job_key_def)

lemma checkpoint_loaded:
  "load_batch_progress 1 checkpoint_world
     = ([''I1_V1'', ''I1_V2''], [sample_object, sample_object])"
  by (simp add: load_batch_progress_def checkpoint_world_def checkpoint_doc_def)

lemma checkpoint_loaded_Suc:
  "load_batch_progress (Suc 0) checkpoint_world
     = ([''I1_V1'', ''I1_V2''], [sample_object, sample_object])"
  using checkpoint_loaded by simp

lemma good_env_reply:
  "call_gemini_api good_env n p = Inr (fenced [] [106, 115, 111, 110] [111, 107] [10] [])"
  "json_loads good_env (extract_json (fenced [] [106, 115, 111, 110] [111, 107] [10] []))
     = Some (JObj sample_object)"
proof -
  show "call_gemini_api good_env n p = Inr (fenced [] [106, 115, 111, 110] [111, 107] [10] [])"
    by (simp add: good_env_def sample_env_def)
  have "extract_json (fenced [] [106, 115, 111, 110] [111, 107] [10] []) = strip [111, 107]"
    by (rule extract_json_fenced) (simp_all add: blank_def py_isspace_def)
  also have "\<dots> = [111, 107]"
    by (simp add: strip_def lstrip_def rstrip_def py_isspace_def)
  finally show "json_loads good_env (extract_json (fenced [] [106, 115, 111, 110] [111, 107] [10] []))
     = Some (JObj sample_object)"
    by (simp add: good_env_def sample_env_def sample_loads_def)
qed

lemma sample_object_complete: "complete sample_object"
  by (simp add: complete_def sample_object_def required_fields_def has_key_def)

lemma good_env_valid: "always_valid good_env"
  unfolding always_valid_def using good_env_reply sample_object_complete by blast

section \<open>Rate limits, incomplete answers, metadata\<close>

text \<open>A job never makes more than \<^verbatim>\<open>MAX_RETRIES\<close> calls.\<close>

lemma attempts_calls:
  "attempts e p v as rd w = (res, w') \<Longrightarrow> calls w' \<le> calls w + length as"
proof (induction as arbitrary: rd w)
  case Nil
  then show ?case by simp
next
  case (Cons a as)
  from Cons.prems show ?case
  proof (cases rule: attempts_Cons_cases)
    case (returned r)
    then show ?thesis by simp
  next
    case (gave_up x)
    then show ?thesis by simp
  next
    case (again x rd' d)
    from Cons.IH [OF again(2)] show ?thesis by (simp add: emit_def)
  qed
qed

lemma adapt_calls:
  "calls (snd (adapt_single_vignette e v vt t w)) \<le> calls w + MAX_RETRIES"
  using attempts_calls [of e "(v, vt, t)" v "[0..<MAX_RETRIES]" INITIAL_RETRY_DELAY w
      "fst (adapt_single_vignette e v vt t w)" "snd (adapt_single_vignette e v vt t w)"]
  by (simp add: adapt_single_vignette_def)

lemma backoff_waits:
  "map (\<lambda>i. min (INITIAL_RETRY_DELAY * 2 ^ i) MAX_RETRY_DELAY) [0..<MAX_RETRIES]
     = [60, 120, 240, 300, 300]"
  by (simp add: INITIAL_RETRY_DELAY_def MAX_RETRY_DELAY_def MAX_RETRIES_def upt_conv_Cons)

lemma adapt_all_429:
  assumes "\<forall>i<MAX_RETRIES. call_gemini_api e (calls w + i) (v, variant, t) = Inl (HTTPError 429)"
  shows "adapt_single_vignette e v variant t w =
     (None, w\<lparr>calls := calls w + MAX_RETRIES,
              trace := trace w @ map Retry_sleep
                 (map (\<lambda>i. min (INITIAL_RETRY_DELAY * 2 ^ i) MAX_RETRY_DELAY) [0..<MAX_RETRIES])\<rparr>)"
  using attempts_all_429 [of "[0..<MAX_RETRIES]" e w "(v, variant, t)" v INITIAL_RETRY_DELAY] assms
  by (simp add: adapt_single_vignette_def comp_def)

lemma job_step_all_429:
  assumes "job_key (vignette_id v) (fst vt) \<notin> set (completed st)"
    and "\<forall>i<MAX_RETRIES. call_gemini_api e (calls (world st) + i) (v, fst vt, snd vt)
           = Inl (HTTPError 429)"
  shows "job_step e b v vt st =
     st\<lparr>failed := failed st @ [job_key (vignette_id v) (fst vt)],
        world := (world st)\<lparr>calls := calls (world st) + MAX_RETRIES,
           trace := trace (world st) @ [Job_started (job_key (vignette_id v) (fst vt))]
              @ map Retry_sleep [60, 120, 240, 300, 300]
              @ [Job_failed (job_key (vignette_id v) (fst vt)),
                 Rate_sleep DELAY_BETWEEN_REQUESTS]\<rparr>\<rparr>"
proof -
  let ?w1 = "emit (Job_started (job_key (vignette_id v) (fst vt))) (world st)"
  have "\<forall>i<MAX_RETRIES. call_gemini_api e (calls ?w1 + i) (v, fst vt, snd vt) = Inl (HTTPError 429)"
    using assms(2) by (simp add: emit_def)
  from adapt_all_429 [OF this] show ?thesis
    using assms(1)
    by (simp add: job_step_def Let_def mark_failed_def backoff_waits emit_def)
qed

lemma limited_env_call: "call_gemini_api limited_env n p = Inl (HTTPError 429)"
  by (simp add: limited_env_def sample_env_def)

lemma map_of_add_metadata:
  "map_of (add_metadata v stamp r)
     = (map_of r)(''category'' \<mapsto> JStr (case category v of None \<Rightarrow> [] | Some c \<Rightarrow> c),
                  ''model'' \<mapsto> JStr MODEL_NAME, ''timestamp'' \<mapsto> JStr stamp)"
  by (simp add: add_metadata_def update_conv')

lemma complete_add_metadata: "complete (add_metadata v stamp r) = complete r"
  by (simp add: complete_def has_key_def required_fields_def map_of_add_metadata)

lemma try_body_incomplete:
  assumes "call_gemini_api e n p = Inr reply"
    and "json_loads e (extract_json reply) = Some (JObj r)" and "\<not> complete r"
  shows "try_body e p v n stamp = Inl Exception"
  using assms by (simp add: try_body_def complete_def)

lemma adapt_complete:
  "case fst (adapt_single_vignette e v vt t w) of None \<Rightarrow> True | Some r \<Rightarrow> complete r"
proof (cases "adapt_single_vignette e v vt t w")
  case (Pair res w')
  show ?thesis
  proof (cases res)
    case None
    then show ?thesis using Pair by simp
  next
    case (Some r)
    from attempts_success [OF Pair [unfolded Some adapt_single_vignette_def]]
    obtain r0 stamp where "list_all (has_key r0) required_fields" "r = add_metadata v stamp r0"
      by blast
    then have "complete r"
      by (simp add: complete_add_metadata) (simp add: complete_def)
    then show ?thesis using Pair Some by simp
  qed
qed

lemma hollow_env_reply:
  "call_gemini_api hollow_env n p = Inr [123, 125]"
  "json_loads hollow_env (extract_json [123, 125]) = Some (JObj [])"
  by (simp_all add: hollow_env_def sample_env_def sample_loads_def extract_json_def Let_def
      strip_def lstrip_def rstrip_def py_isspace_def startswith_def fence_def)

lemma hollow_run:
 "adapt_single_vignette hollow_env (sample_vignette ''I1'') ''V1'' t empty_world
   = (None, empty_world\<lparr>calls := 5, trace := [Retry_sleep 15, Retry_sleep 15, Retry_sleep 15, Retry_sleep 15]\<rparr>)"
  by (simp add: adapt_single_vignette_def MAX_RETRIES_def upt_conv_Cons try_body_def
      hollow_env_reply required_fields_def has_key_def emit_def empty_world_def Let_def)

lemma good_run:
  "adapt_single_vignette good_env (sample_vignette ''PILOT-001'') ''urban_wealthy_male''
      pilot_template empty_world
   = (Some pilot_result, empty_world\<lparr>calls := 1, ticks := 1\<rparr>)"
  by (simp add: adapt_single_vignette_def MAX_RETRIES_def upt_conv_Cons try_body_def
      good_env_reply required_fields_def has_key_def emit_def empty_world_def Let_def
      sample_object_def add_metadata_def MODEL_NAME_def sample_vignette_def pilot_result_def)
    (simp add: good_env_def sample_env_def)

lemma job_step_appends:
  "adaptations (job_step e b v vt st) = adaptations st
   \<or> (\<exists>r w2. adapt_single_vignette e v (fst vt) (snd vt)
                 (emit (Job_started (job_key (vignette_id v) (fst vt))) (world st)) = (Some r, w2)
         \<and> adaptations (job_step e b v vt st) = adaptations st @ [r])"
  by (cases e b v vt st rule: job_step_cases) auto

section \<open>The keys of the declared variants\<close>

text \<open>
  No declared variant name is the end of another one after an underscore, so the key
  of a job determines its vignette identifier and its variant.
\<close>

lemma append_eq_suffix:
  assumes "a @ s = b @ t"
  shows "suffix s t \<or> suffix t s"
  using assms by (auto simp: append_eq_append_conv2 suffix_def)

lemma variant_suffix:
  "\<forall>x\<in>set (map fst DEMOGRAPHIC_TEMPLATES). \<forall>y\<in>set (map fst DEMOGRAPHIC_TEMPLATES).
     suffix (''_'' @ x) (''_'' @ y) \<longrightarrow> x = y"
  by (simp add: DEMOGRAPHIC_TEMPLATES_def suffix_to_prefix)

lemma job_key_inj:
  assumes "x \<in> set (map fst DEMOGRAPHIC_TEMPLATES)" "y \<in> set (map fst DEMOGRAPHIC_TEMPLATES)"
    and "job_key a x = job_key b y"
  shows "a = b \<and> x = y"
proof -
  from assms(3) have e: "a @ (''_'' @ x) = b @ (''_'' @ y)"
    by (simp add: job_key_def)
  from append_eq_suffix [OF e] have "x = y"
    using variant_suffix assms(1,2) by blast
  with e show ?thesis by simp
qed

lemma templates_distinct: "distinct (map fst DEMOGRAPHIC_TEMPLATES)"
  by (simp add: DEMOGRAPHIC_TEMPLATES_def)

lemma declared_keys_distinct:
  assumes "distinct (map vignette_id vs)"
  shows "distinct (map key_of (List.product vs DEMOGRAPHIC_TEMPLATES))"
proof -
  have dv: "distinct vs" using assms by (simp add: distinct_map)
  have dt: "distinct DEMOGRAPHIC_TEMPLATES" using templates_distinct by (simp add: distinct_map)
  have "inj_on key_of (set (List.product vs DEMOGRAPHIC_TEMPLATES))"
  proof (rule inj_onI)
    fix j k
    assume j: "j \<in> set (List.product vs DEMOGRAPHIC_TEMPLATES)"
      and k: "k \<in> set (List.product vs DEMOGRAPHIC_TEMPLATES)"
      and eq: "key_of j = key_of k"
    obtain v x t where jj: "j = (v, x, t)" by (cases j) auto
    obtain u y s where kk: "k = (u, y, s)" by (cases k) auto
    from j k have mem: "v \<in> set vs" "u \<in> set vs" "(x, t) \<in> set DEMOGRAPHIC_TEMPLATES"
      "(y, s) \<in> set DEMOGRAPHIC_TEMPLATES"
      by (auto simp: jj kk)
    then have "x \<in> set (map fst DEMOGRAPHIC_TEMPLATES)" "y \<in> set (map fst DEMOGRAPHIC_TEMPLATES)"
      by force+
    from job_key_inj [OF this] eq have ids: "vignette_id v = vignette_id u" and xy: "x = y"
      by (auto simp: key_of_def jj kk)
    from ids assms mem(1,2) have "v = u"
      by (meson distinct_map inj_onD)
    moreover from xy mem(3,4) have "t = s"
      using eq_key_imp_eq_value [OF templates_distinct] by blast
    ultimately show "j = k" using xy by (simp add: jj kk)
  qed
  then show ?thesis
    using dv dt by (simp add: distinct_map distinct_product)
qed


lemma process_batch_resumes:
  assumes "distinct (map vignette_id all_vignettes)"
    and "map_of BATCH_CONFIG b = Some (start_idx, end_idx)"
    and "set (fst (load_batch_progress b w))
           \<subseteq> set (map key_of (List.product (drop start_idx (take end_idx all_vignettes))
                                  DEMOGRAPHIC_TEMPLATES))"
  shows "\<exists>w'. process_batch e all_vignettes b w = Some w'
           \<and> started (trace w')
               = started (trace w)
                 @ filter (\<lambda>k. k \<notin> set (fst (load_batch_progress b w)))
                     (map key_of (List.product (drop start_idx (take end_idx all_vignettes))
                                    DEMOGRAPHIC_TEMPLATES))"
proof -
  have "map vignette_id (drop start_idx (take end_idx all_vignettes))
          = drop start_idx (take end_idx (map vignette_id all_vignettes))"
    by (simp only: drop_map take_map)
  then have "distinct (map vignette_id (drop start_idx (take end_idx all_vignettes)))"
    using assms(1) by (simp only: distinct_drop distinct_take)
  from run_batch_started [OF declared_keys_distinct [OF this] assms(3)] assms(2)
  show ?thesis by (simp add: process_batch_def)
qed

lemma sample_total: "total_for_batch sample_items sample_templates = 4"
  by (simp add: total_for_batch_def sample_items_def sample_templates_def)

section \<open>A sample merge\<close>

lemma merge_sample:
  "final_output (merge_all_batches good_env two_outputs_world)
     = Some [sample_object, sample_object, pilot_result]
   \<and> trace (merge_all_batches good_env two_outputs_world)
     = [Batch_loaded 1 2, Batch_not_found 2, Batch_loaded 3 1,
        Wrote_final [sample_object, sample_object, pilot_result],
        Wrote_merge_log \<lparr>m_merged_at = ''2026-01-01T00:00:00'', m_total = 3,
                          m_batches = [1, 2, 3]\<rparr>]
   \<and> trace (merge_all_batches good_env empty_world)
     = [Batch_not_found 1, Batch_not_found 2, Batch_not_found 3, Nothing_to_merge]
   \<and> final_output (merge_all_batches good_env empty_world) = None
   \<and> merge_log (merge_all_batches good_env empty_world) = None"
  unfolding merge_all_batches_def batch_numbers
  by (simp add: merge_batches_eq merged_def batch_data_def report_def two_outputs_world_def
      empty_world_def good_env_def sample_env_def)

section \<open>What a commit adds\<close>

text \<open>
  One job, by its outcome: skipped, failed, or committed. A commit adds the key of the
  job, appends the result the call returned, and writes both to the progress file and
  the output file of the batch. Over a run, the new keys and the new results come in
  pairs, one result for each new key.
\<close>

lemma adapt_result_nonempty:
  assumes "adapt_single_vignette e v vt t w = (Some r, w2)"
  shows "r \<noteq> []"
  using attempts_success [OF assms [unfolded adapt_single_vignette_def]]
  by (auto simp: add_metadata_nonempty)

lemma job_step_outcome:
  "(if key_of (v, vt) \<in> set (completed st) then job_step e b v vt st = st
    else case adapt_single_vignette e v (fst vt) (snd vt)
                (emit (Job_started (key_of (v, vt))) (world st)) of
        (None, w2) \<Rightarrow>
          completed (job_step e b v vt st) = completed st
          \<and> adaptations (job_step e b v vt st) = adaptations st
          \<and> failed (job_step e b v vt st) = failed st @ [key_of (v, vt)]
          \<and> progress_files (world (job_step e b v vt st)) = progress_files (world st)
          \<and> output_files (world (job_step e b v vt st)) = output_files (world st)
          \<and> written_docs (trace (world (job_step e b v vt st)))
              = written_docs (trace (world st))
      | (Some r, w2) \<Rightarrow>
          set (completed (job_step e b v vt st)) = insert (key_of (v, vt)) (set (completed st))
          \<and> length (completed (job_step e b v vt st)) = length (completed st) + 1
          \<and> adaptations (job_step e b v vt st) = adaptations st @ [r]
          \<and> failed (job_step e b v vt st) = failed st
          \<and> progress_files (world (job_step e b v vt st))
              = (progress_files (world st))
                  (b \<mapsto> \<lparr>p_batch = b, p_completed = completed (job_step e b v vt st),
                          p_adaptations = adaptations st @ [r],
                          p_updated = now_isoformat e (ticks w2)\<rparr>)
          \<and> output_files (world (job_step e b v vt st))
              = (output_files (world st))(b \<mapsto> adaptations st @ [r])
          \<and> written_docs (trace (world (job_step e b v vt st)))
              = written_docs (trace (world st))
                @ [\<lparr>p_batch = b, p_completed = completed (job_step e b v vt st),
                     p_adaptations = adaptations st @ [r],
                     p_updated = now_isoformat e (ticks w2)\<rparr>]
          \<and> load_batch_progress b (world (job_step e b v vt st))
              = (completed (job_step e b v vt st), adaptations (job_step e b v vt st)))"
proof (cases e b v vt st rule: job_step_cases)
  case skipped
  then show ?thesis by (simp add: key_of_def)
next
  case (committed r w2 ds)
  then show ?thesis
    by (simp add: key_of_def committed_world_def written_docs_append written_docs_Cons
        written_docs_Nil written_docs_retry load_batch_progress_def)
next
  case (unsuccessful res w2 ds)
  from unsuccessful(2,3) adapt_result_nonempty have "res = None" by blast
  with unsuccessful show ?thesis
    by (simp add: key_of_def failed_world_def written_docs_append written_docs_Cons
        written_docs_Nil written_docs_retry)
qed


lemma run_jobs_pairs:
  "\<exists>ps docs. adaptations (run_jobs e b js st) = adaptations st @ map snd ps
     \<and> set (completed (run_jobs e b js st)) = set (completed st) \<union> set (map fst ps)
     \<and> length (completed (run_jobs e b js st)) = length (completed st) + length ps
     \<and> distinct (map fst ps)
     \<and> set (map fst ps) \<inter> set (completed st) = {}
     \<and> set (map fst ps) \<subseteq> set (map key_of js)
     \<and> written_docs (trace (world (run_jobs e b js st)))
         = written_docs (trace (world st)) @ docs
     \<and> length docs = length ps"
proof (induction js arbitrary: st)
  case Nil
  show ?case
    by (rule exI [of _ "[]"], rule exI [of _ "[]"]) (simp add: run_jobs_Nil)
next
  case (Cons j js)
  obtain v vt where j: "j = (v, vt)" by (cases j)
  let ?key = "job_key (vignette_id v) (fst vt)"
  let ?st = "job_step e b v vt st"
  have k: "key_of j = ?key" by (simp add: j key_of_def)
  from Cons [of ?st] obtain ps docs where ih:
    "adaptations (run_jobs e b js ?st) = adaptations ?st @ map snd ps"
    "set (completed (run_jobs e b js ?st)) = set (completed ?st) \<union> set (map fst ps)"
    "length (completed (run_jobs e b js ?st)) = length (completed ?st) + length ps"
    "distinct (map fst ps)"
    "set (map fst ps) \<inter> set (completed ?st) = {}"
    "set (map fst ps) \<subseteq> set (map key_of js)"
    "written_docs (trace (world (run_jobs e b js ?st))) = written_docs (trace (world ?st)) @ docs"
    "length docs = length ps"
    by blast
  show ?case
  proof (cases e b v vt st rule: job_step_cases)
    case skipped
    then show ?thesis using ih
      by (intro exI [of _ ps] exI [of _ docs]) (auto simp: j run_jobs_Cons)
  next
    case (unsuccessful res w2 ds)
    then have same: "completed ?st = completed st" "adaptations ?st = adaptations st"
      "written_docs (trace (world ?st)) = written_docs (trace (world st))"
      by (simp_all add: failed_world_def written_docs_append written_docs_Cons
          written_docs_Nil written_docs_retry)
    show ?thesis using ih
      by (intro exI [of _ ps] exI [of _ docs]) (auto simp: j run_jobs_Cons same)
  next
    case (committed r w2 ds)
    let ?doc = "\<lparr>p_batch = b, p_completed = ?key # completed st,
                 p_adaptations = adaptations st @ [r], p_updated = now_isoformat e (ticks w2)\<rparr>"
    from committed have step: "completed ?st = ?key # completed st"
      "adaptations ?st = adaptations st @ [r]"
      "written_docs (trace (world ?st)) = written_docs (trace (world st)) @ [?doc]"
      by (simp_all add: committed_world_def written_docs_append written_docs_Cons
          written_docs_Nil written_docs_retry)
    have fresh: "?key \<notin> set (map fst ps)"
      using ih(5) step(1) by auto
    show ?thesis
      using ih committed(1) fresh
      by (intro exI [of _ "(?key, r) # ps"] exI [of _ "?doc # docs"])
        (auto simp: j run_jobs_Cons step key_of_def)
  qed
qed


lemma run_batch_pairs:
  "\<exists>ps. snd (load_batch_progress b (run_batch e b rng ts vs w))
            = snd (load_batch_progress b w) @ map snd ps
     \<and> set (fst (load_batch_progress b (run_batch e b rng ts vs w)))
         = set (fst (load_batch_progress b w)) \<union> set (map fst ps)
     \<and> distinct (map fst ps)
     \<and> set (map fst ps) \<inter> set (fst (load_batch_progress b w)) = {}
     \<and> set (map fst ps) \<subseteq> set (map key_of (List.product vs ts))"
proof (cases "total_for_batch vs ts = length (completed (start_state b w))")
  case True
  then show ?thesis
    by (intro exI [of _ "[]"]) (simp add: run_batch_eq)
next
  case False
  let ?st = "run_jobs e b (List.product vs ts) (start_state b w)"
  from run_jobs_pairs [of e b "List.product vs ts" "start_state b w"]
  obtain ps where ps: "adaptations ?st = adaptations (start_state b w) @ map snd ps"
    "set (completed ?st) = set (completed (start_state b w)) \<union> set (map fst ps)"
    "distinct (map fst ps)"
    "set (map fst ps) \<inter> set (completed (start_state b w)) = {}"
    "set (map fst ps) \<subseteq> set (map key_of (List.product vs ts))"
    by blast
  have "synced b ?st"
    by (intro run_jobs_synced start_state_synced)
  then have "set (fst (load_batch_progress b (run_batch e b rng ts vs w))) = set (completed ?st)"
    "snd (load_batch_progress b (run_batch e b rng ts vs w)) = adaptations ?st"
    using False by (simp_all add: run_batch_eq write_run_log_progress synced_def)
  with ps show ?thesis
    by (intro exI [of _ ps]) (simp add: start_state_loaded)
qed

lemma checkpoint_step:
  "adapt_single_vignette good_env (sample_vignette ''I2'') ''V1''
      \<lparr>code = ''A'', description = ''first''\<rparr> (emit (Job_started ''I2_V1'') checkpoint_world)
   = (Some pilot_result,
      (emit (Job_started ''I2_V1'') checkpoint_world)\<lparr>calls := 1, ticks := 1\<rparr>)"
  by (simp add: adapt_single_vignette_def MAX_RETRIES_def upt_conv_Cons try_body_def
      good_env_reply required_fields_def has_key_def emit_def checkpoint_world_def
      empty_world_def Let_def sample_object_def add_metadata_def MODEL_NAME_def
      sample_vignette_def pilot_result_def)
    (simp add: good_env_def sample_env_def)

lemma checkpoint_state:
  "start_state (Suc 0) checkpoint_world
     = \<lparr>completed = [''I1_V1'', ''I1_V2''], adaptations = [sample_object, sample_object],
        failed = [], world = checkpoint_world\<rparr>"
  by (simp add: start_state_def checkpoint_loaded_Suc)

section \<open>Claims\<close>

text \<open>
  C4. Fenced-wrapper round trip: a payload wrapped in a fenced block (three backquotes,
  an optional language tag on the opening line, white space allowed around the block
  and between the payload and the closing fence) is extracted to the same text as the
  payload alone, namely the stripped payload, so \<^verbatim>\<open>json.loads\<close> is applied to the same
  text and returns the same object. The payload is the answer itself: its first
  character that is not white space is not the start of a fence, which holds of every
  JSON text.
\<close>

theorem C4_fenced_round_trip:
  assumes "blank pre" and "blank gap" and "blank post"
    and "10 \<notin> set lang"
    and "\<not> startswith (strip payload) fence"
  shows "extract_json (fenced pre lang payload gap post) = strip payload
         \<and> extract_json payload = strip payload
         \<and> json_loads e (extract_json (fenced pre lang payload gap post))
             = json_loads e (extract_json payload)"
  using assms by (simp add: extract_json_fenced extract_json_plain)

text \<open>
  The answer \<^verbatim>\<open>{}\<close> in a block tagged \<^verbatim>\<open>json\<close>, a line feed before the closing
  fence.
\<close>

theorem C4_fenced_round_trip_witness:
  "blank [] \<and> blank [10] \<and> (10::nat) \<notin> set [106, 115, 111, 110]
   \<and> \<not> startswith (strip [123, 125]) fence
   \<and> extract_json (fenced [] [106, 115, 111, 110] [123, 125] [10] []) = [123, 125]
   \<and> extract_json [123, 125] = [123, 125]
   \<and> json_loads (sample_env (\<lambda>n. Inl Exception))
         (extract_json (fenced [] [106, 115, 111, 110] [123, 125] [10] []))
       = Some (JObj [])"
proof -
  have b: "blank []" "blank [10]"
    by (simp_all add: blank_def py_isspace_def)
  have l: "10 \<notin> set [106, 115, 111, 110 :: nat]"
    by simp
  have s: "strip [123, 125] = [123, 125]"
    by (simp add: strip_def lstrip_def rstrip_def py_isspace_def)
  have n: "\<not> startswith (strip [123, 125]) fence"
    by (simp add: s startswith_def fence_def)
  show ?thesis
    using C4_fenced_round_trip [OF b(1) b(2) b(1) l n, of "sample_env (\<lambda>n. Inl Exception)"]
      b l n s
    by (simp add: sample_env_def sample_loads_def)
qed

text \<open>
  C6. Job enumeration: for \<open>N\<close> vignettes and \<open>M\<close> templates the total the script
  computes is \<open>N * M\<close>, which is the number of jobs; the two nested loops run the
  body once per job, over the vignettes in input order and, for each, over the
  templates in declaration order. Nothing in the enumeration is random: it is a
  function of the two lists. A run that starts without a progress file, on jobs with
  pairwise different keys, starts every job, in that order.
\<close>

theorem C6_job_enumeration:
  "total_for_batch vs ts = length vs * length ts
   \<and> length (List.product vs ts) = total_for_batch vs ts
   \<and> List.product vs ts = concat (map (\<lambda>v. map (Pair v) ts) vs)
   \<and> vignette_loop e b ts vs st =
       foldl (\<lambda>s (v, vt). job_step e b v vt s) st (List.product vs ts)
   \<and> (distinct (map key_of (List.product vs ts)) \<and> progress_files w b = None \<longrightarrow>
        started (trace (run_batch e b rng ts vs w))
          = started (trace w) @ map key_of (List.product vs ts))"
proof (intro conjI impI)
  show "total_for_batch vs ts = length vs * length ts"
    by (simp add: total_for_batch_def)
  show "length (List.product vs ts) = total_for_batch vs ts"
    by (simp add: total_for_batch_def)
  show "List.product vs ts = concat (map (\<lambda>v. map (Pair v) ts) vs)"
    by (induction vs) simp_all
  show "vignette_loop e b ts vs st =
       foldl (\<lambda>s (v, vt). job_step e b v vt s) st (List.product vs ts)"
    by (rule vignette_loop_foldl)
next
  assume a: "distinct (map key_of (List.product vs ts)) \<and> progress_files w b = None"
  then have l: "fst (load_batch_progress b w) = []"
    by (simp add: load_batch_progress_def)
  from a run_batch_started [of vs ts b w e rng]
  show "started (trace (run_batch e b rng ts vs w))
          = started (trace w) @ map key_of (List.product vs ts)"
    by (simp add: l)
qed

theorem C6_job_enumeration_witness:
  "distinct (map key_of (List.product sample_items sample_templates))
   \<and> progress_files empty_world 1 = None
   \<and> total_for_batch sample_items sample_templates = 4
   \<and> map key_of (List.product sample_items sample_templates)
       = [''I1_V1'', ''I1_V2'', ''I2_V1'', ''I2_V2'']
   \<and> started (trace (run_batch good_env 1 (0, 2) sample_templates sample_items empty_world))
       = [''I1_V1'', ''I1_V2'', ''I2_V1'', ''I2_V2'']"
proof -
  have d: "distinct (map key_of (List.product sample_items sample_templates))"
    by (simp add: sample_keys)
  have n: "progress_files empty_world 1 = None"
    by (simp add: empty_world_def)
  have t: "started (trace empty_world) = []"
    by (simp add: empty_world_def started_def)
  have "started (trace (run_batch good_env 1 (0, 2) sample_templates sample_items empty_world))
          = started (trace empty_world) @ map key_of (List.product sample_items sample_templates)"
    using C6_job_enumeration [of sample_items sample_templates good_env 1 _ empty_world "(0, 2)"]
      d n by blast
  then show ?thesis
    using d n sample_total by (simp only: t sample_keys append_Nil simp_thms)
qed

text \<open>
  C8. Merge: the script merges the batches 1, 2, 3 in this order. For any list of
  batch numbers, the collection the loop builds is the concatenation, in that order,
  of the outputs that exist (a missing one contributes nothing), its size is the sum
  of their sizes, it is what the merged output file holds afterwards (the file is
  left as it was when the collection is empty), and the run prints one line per
  batch, in order, a missing output being reported as not found without stopping
  the loop.
\<close>

theorem C8_merge_concatenates:
  "merge_all_batches e w = merge_batches e [1, 2, 3] w
   \<and> fst (merge_loop bs [] w) = merged w bs
   \<and> length (merged w bs) = sum_list (map (\<lambda>b. length (batch_data w b)) bs)
   \<and> final_output (merge_batches e bs w)
       = (if merged w bs = [] then final_output w else Some (merged w bs))
   \<and> take (length bs) (drop (length (trace w)) (trace (merge_batches e bs w)))
       = map (report w) bs"
  by (simp add: merge_all_batches_def BATCH_CONFIG_def merge_loop_eq [OF refl]
      length_merged merge_batches_eq)

text \<open>
  C10. The merge writes the merged output and the merge log exactly when some batch
  output was found with at least one record: then both are written, once each, with
  the merged collection and its size; otherwise (no output file at all, for one)
  nothing is written and both files are left as they were.
\<close>

theorem C10_merge_writes:
  "filter is_merge_write (drop (length (trace w)) (trace (merge_all_batches e w)))
     = (if list_ex (\<lambda>b. batch_data w b \<noteq> []) (map fst BATCH_CONFIG)
        then [Wrote_final (merged w (map fst BATCH_CONFIG)),
              Wrote_merge_log \<lparr>m_merged_at = now_isoformat e (ticks w),
                 m_total = length (merged w (map fst BATCH_CONFIG)),
                 m_batches = map fst BATCH_CONFIG\<rparr>]
        else [])
   \<and> (if list_ex (\<lambda>b. batch_data w b \<noteq> []) (map fst BATCH_CONFIG)
      then final_output (merge_all_batches e w) = Some (merged w (map fst BATCH_CONFIG))
           \<and> merge_log (merge_all_batches e w)
               = Some \<lparr>m_merged_at = now_isoformat e (ticks w),
                   m_total = length (merged w (map fst BATCH_CONFIG)),
                   m_batches = map fst BATCH_CONFIG\<rparr>
      else final_output (merge_all_batches e w) = final_output w
           \<and> merge_log (merge_all_batches e w) = merge_log w)"
  unfolding merge_all_batches_def batch_numbers
  by (simp add: merge_batches_eq not_write_report merged_nonempty [symmetric])

text \<open>
  C7. The delay between requests is slept exactly once for every attempted job,
  whatever the outcome, and never for a skipped job. For one job: if its key is
  completed the state is left as it is (no event, no delay); otherwise, of the events
  that pace the run, the job adds its start and one delay of
  \<^verbatim>\<open>DELAY_BETWEEN_REQUESTS\<close>, and that delay is the last thing the job does. For a whole
  run: the pacing events are, for the attempted jobs in order, a start followed by one
  delay.
\<close>

theorem C7_rate_limit_delay:
  "filter pacing (trace (world (job_step e b v vt st)))
     = filter pacing (trace (world st))
       @ (if job_key (vignette_id v) (fst vt) \<in> set (completed st) then []
          else [Job_started (job_key (vignette_id v) (fst vt)),
                Rate_sleep DELAY_BETWEEN_REQUESTS])
   \<and> (if job_key (vignette_id v) (fst vt) \<in> set (completed st)
      then job_step e b v vt st = st
      else last (trace (world (job_step e b v vt st))) = Rate_sleep DELAY_BETWEEN_REQUESTS)
   \<and> (\<exists>ks. filter pacing (trace (run_batch e b rng ts vs w))
         = filter pacing (trace w)
           @ concat (map (\<lambda>k. [Job_started k, Rate_sleep DELAY_BETWEEN_REQUESTS]) ks))"
  using run_batch_pacing [of e b rng ts vs w]
  by (simp add: job_step_pacing job_step_last job_step_skip)

text \<open>
  C1. Idempotent resume. The run loads the persisted keys and skips every job whose
  key is among them. When the keys of the jobs are pairwise different and the
  persisted keys are keys of this batch, the jobs attempted are exactly the jobs whose
  keys are not persisted, in the order of the enumeration; when moreover every call
  of the service succeeds, the keys persisted after the run are the keys of all jobs;
  and the results persisted before the run are still there, at the front of the list.
  With the variants the script declares, the keys are pairwise different as soon as
  the identifiers of the vignettes are. The instance below is the example of the
  specification: the items \<open>I1, I2\<close>, the variants \<open>V1, V2\<close> and a checkpoint
  holding the two jobs of \<open>I1\<close>; the attempted jobs are those of \<open>I2\<close> and the final
  set holds all four keys.
\<close>

theorem C1_idempotent_resume:
  assumes "distinct (map key_of (List.product vs ts))"
    and "set (fst (load_batch_progress b w)) \<subseteq> set (map key_of (List.product vs ts))"
  shows "started (trace (run_batch e b rng ts vs w))
           = started (trace w)
             @ filter (\<lambda>k. k \<notin> set (fst (load_batch_progress b w)))
                 (map key_of (List.product vs ts))
    \<and> (always_valid e \<longrightarrow>
         set (fst (load_batch_progress b (run_batch e b rng ts vs w)))
           = set (map key_of (List.product vs ts)))
    \<and> prefix (snd (load_batch_progress b w))
        (snd (load_batch_progress b (run_batch e b rng ts vs w)))
    \<and> (distinct (map vignette_id items) \<longrightarrow>
         distinct (map key_of (List.product items DEMOGRAPHIC_TEMPLATES)))"
  using run_batch_started [OF assms] run_batch_all_done [OF assms]
    run_batch_grows [of b w e rng ts vs] declared_keys_distinct [of items]
  by simp

theorem C1_idempotent_resume_witness:
  "distinct (map key_of (List.product sample_items sample_templates))
   \<and> set (fst (load_batch_progress 1 checkpoint_world))
       \<subseteq> set (map key_of (List.product sample_items sample_templates))
   \<and> always_valid good_env
   \<and> fst (load_batch_progress 1 checkpoint_world) = [''I1_V1'', ''I1_V2'']
   \<and> started (trace (run_batch good_env 1 (0, 2) sample_templates sample_items checkpoint_world))
       = [''I2_V1'', ''I2_V2'']
   \<and> set (fst (load_batch_progress 1
             (run_batch good_env 1 (0, 2) sample_templates sample_items checkpoint_world)))
       = {''I1_V1'', ''I1_V2'', ''I2_V1'', ''I2_V2''}
   \<and> distinct (map vignette_id sample_items)
   \<and> distinct (map key_of (List.product sample_items DEMOGRAPHIC_TEMPLATES))"
proof -
  have i: "distinct (map vignette_id sample_items)"
    by (simp add: sample_items_def sample_vignette_def)
  have d: "distinct (map key_of (List.product sample_items sample_templates))"
    by (simp add: sample_keys)
  have s: "set (fst (load_batch_progress 1 checkpoint_world))
             \<subseteq> set (map key_of (List.product sample_items sample_templates))"
    by (simp add: sample_keys checkpoint_loaded_Suc)
  have t: "started (trace checkpoint_world) = []"
    by (simp add: checkpoint_world_def empty_world_def started_def)
  show ?thesis
    using C1_idempotent_resume [OF d s, of good_env "(0, 2)" sample_items] good_env_valid d s i
    by (simp add: sample_keys checkpoint_loaded_Suc t)
qed

text \<open>
  C3. Invariant of the progress record. If the progress file of the batch, when there
  is one, holds as many keys as results, and so did every progress document written
  so far, then the same holds after loading, of every document a run writes (one per
  commit), of the file the run leaves, and after loading that file again; the keys
  and the results on disk only grow over a run (the old results stay at the front).
  One job does exactly one of three things. Its key is completed: the state is left as
  it is. Its call returns no result: the key joins the failed keys, and the completed
  keys, the results, the files and the documents written are as before. Its call
  returns a result: the key, which was not completed, is added (one key more), the
  result is appended to the results, and the progress file and the output file of
  the batch are overwritten with exactly these keys and results, which is the one
  progress document the job writes. Over a run, the keys and results on disk
  afterwards are those before, extended by pairs of a new key of the batch and its
  result, the new keys pairwise different.
\<close>

theorem C3_progress_invariant:
  assumes "file_ok b w" and "list_all doc_ok (written_docs (trace w))"
  shows "state_ok (start_state b w)
    \<and> list_all doc_ok (written_docs (trace (run_batch e b rng ts vs w)))
    \<and> file_ok b (run_batch e b rng ts vs w)
    \<and> state_ok (start_state b (run_batch e b rng ts vs w))
    \<and> set (fst (load_batch_progress b w))
        \<subseteq> set (fst (load_batch_progress b (run_batch e b rng ts vs w)))
    \<and> prefix (snd (load_batch_progress b w))
        (snd (load_batch_progress b (run_batch e b rng ts vs w)))
    \<and> ((completed (job_step e b v vt st) = completed st
          \<and> adaptations (job_step e b v vt st) = adaptations st)
       \<or> (\<exists>r. key_of (v, vt) \<notin> set (completed st)
             \<and> set (completed (job_step e b v vt st)) = insert (key_of (v, vt)) (set (completed st))
             \<and> length (completed (job_step e b v vt st)) = length (completed st) + 1
             \<and> adaptations (job_step e b v vt st) = adaptations st @ [r]))
    \<and> (if key_of (v, vt) \<in> set (completed st) then job_step e b v vt st = st
       else case adapt_single_vignette e v (fst vt) (snd vt)
                   (emit (Job_started (key_of (v, vt))) (world st)) of
           (None, w2) \<Rightarrow>
             completed (job_step e b v vt st) = completed st
             \<and> adaptations (job_step e b v vt st) = adaptations st
             \<and> failed (job_step e b v vt st) = failed st @ [key_of (v, vt)]
             \<and> progress_files (world (job_step e b v vt st)) = progress_files (world st)
             \<and> output_files (world (job_step e b v vt st)) = output_files (world st)
             \<and> written_docs (trace (world (job_step e b v vt st)))
                 = written_docs (trace (world st))
         | (Some r, w2) \<Rightarrow>
             set (completed (job_step e b v vt st))
               = insert (key_of (v, vt)) (set (completed st))
             \<and> length (completed (job_step e b v vt st)) = length (completed st) + 1
             \<and> adaptations (job_step e b v vt st) = adaptations st @ [r]
             \<and> failed (job_step e b v vt st) = failed st
             \<and> progress_files (world (job_step e b v vt st))
                 = (progress_files (world st))
                     (b \<mapsto> \<lparr>p_batch = b, p_completed = completed (job_step e b v vt st),
                             p_adaptations = adaptations st @ [r],
                             p_updated = now_isoformat e (ticks w2)\<rparr>)
             \<and> output_files (world (job_step e b v vt st))
                 = (output_files (world st))(b \<mapsto> adaptations st @ [r])
             \<and> written_docs (trace (world (job_step e b v vt st)))
                 = written_docs (trace (world st))
                   @ [\<lparr>p_batch = b, p_completed = completed (job_step e b v vt st),
                        p_adaptations = adaptations st @ [r],
                        p_updated = now_isoformat e (ticks w2)\<rparr>]
             \<and> load_batch_progress b (world (job_step e b v vt st))
                 = (completed (job_step e b v vt st), adaptations (job_step e b v vt st)))
    \<and> (\<exists>ps. snd (load_batch_progress b (run_batch e b rng ts vs w))
               = snd (load_batch_progress b w) @ map snd ps
          \<and> set (fst (load_batch_progress b (run_batch e b rng ts vs w)))
              = set (fst (load_batch_progress b w)) \<union> set (map fst ps)
          \<and> distinct (map fst ps)
          \<and> set (map fst ps) \<inter> set (fst (load_batch_progress b w)) = {}
          \<and> set (map fst ps) \<subseteq> set (map key_of (List.product vs ts)))"
proof (intro conjI)
  show "state_ok (start_state b w)"
    using assms(1) by (rule start_state_ok)
  show "list_all doc_ok (written_docs (trace (run_batch e b rng ts vs w)))"
    using assms by (rule run_batch_docs)
  show f: "file_ok b (run_batch e b rng ts vs w)"
    using assms(1) by (rule run_batch_file_ok)
  show "state_ok (start_state b (run_batch e b rng ts vs w))"
    using f by (rule start_state_ok)
  show "set (fst (load_batch_progress b w))
        \<subseteq> set (fst (load_batch_progress b (run_batch e b rng ts vs w)))"
    using run_batch_grows [of b w e rng ts vs] by simp
  show "prefix (snd (load_batch_progress b w))
        (snd (load_batch_progress b (run_batch e b rng ts vs w)))"
    using run_batch_grows [of b w e rng ts vs] by simp
  show "(completed (job_step e b v vt st) = completed st
          \<and> adaptations (job_step e b v vt st) = adaptations st)
       \<or> (\<exists>r. key_of (v, vt) \<notin> set (completed st)
             \<and> set (completed (job_step e b v vt st)) = insert (key_of (v, vt)) (set (completed st))
             \<and> length (completed (job_step e b v vt st)) = length (completed st) + 1
             \<and> adaptations (job_step e b v vt st) = adaptations st @ [r])"
    by (rule job_step_commit_or_not)
  show "\<exists>ps. snd (load_batch_progress b (run_batch e b rng ts vs w))
               = snd (load_batch_progress b w) @ map snd ps
          \<and> set (fst (load_batch_progress b (run_batch e b rng ts vs w)))
              = set (fst (load_batch_progress b w)) \<union> set (map fst ps)
          \<and> distinct (map fst ps)
          \<and> set (map fst ps) \<inter> set (fst (load_batch_progress b w)) = {}
          \<and> set (map fst ps) \<subseteq> set (map key_of (List.product vs ts))"
    by (rule run_batch_pairs)
qed (rule job_step_outcome)

theorem C3_progress_invariant_witness:
  "file_ok 1 checkpoint_world
   \<and> list_all doc_ok (written_docs (trace checkpoint_world))
   \<and> state_ok (start_state 1 checkpoint_world)
   \<and> list_all doc_ok (written_docs (trace
         (run_batch good_env 1 (0, 2) sample_templates sample_items checkpoint_world)))
   \<and> file_ok 1 (run_batch good_env 1 (0, 2) sample_templates sample_items checkpoint_world)
   \<and> state_ok (start_state 1
         (run_batch good_env 1 (0, 2) sample_templates sample_items checkpoint_world))
   \<and> {''I1_V1'', ''I1_V2''} \<subseteq> set (fst (load_batch_progress 1
         (run_batch good_env 1 (0, 2) sample_templates sample_items checkpoint_world)))
   \<and> prefix [sample_object, sample_object] (snd (load_batch_progress 1
         (run_batch good_env 1 (0, 2) sample_templates sample_items checkpoint_world)))
   \<and> ''I2_V1'' \<notin> set (completed (start_state 1 checkpoint_world))
   \<and> set (completed (job_step good_env 1 (sample_vignette ''I2'')
              (''V1'', \<lparr>code = ''A'', description = ''first''\<rparr>)
              (start_state 1 checkpoint_world)))
       = {''I2_V1'', ''I1_V1'', ''I1_V2''}
   \<and> adaptations (job_step good_env 1 (sample_vignette ''I2'')
              (''V1'', \<lparr>code = ''A'', description = ''first''\<rparr>)
              (start_state 1 checkpoint_world))
       = [sample_object, sample_object, pilot_result]
   \<and> snd (load_batch_progress 1 (world (job_step good_env 1 (sample_vignette ''I2'')
              (''V1'', \<lparr>code = ''A'', description = ''first''\<rparr>)
              (start_state 1 checkpoint_world))))
       = [sample_object, sample_object, pilot_result]
   \<and> output_files (world (job_step good_env 1 (sample_vignette ''I2'')
              (''V1'', \<lparr>code = ''A'', description = ''first''\<rparr>)
              (start_state 1 checkpoint_world))) 1
       = Some [sample_object, sample_object, pilot_result]"
proof -
  let ?v = "sample_vignette ''I2''"
  let ?vt = "(''V1'', \<lparr>code = ''A'', description = ''first''\<rparr>)"
  have f: "file_ok 1 checkpoint_world"
    by (simp add: file_ok_def checkpoint_world_def checkpoint_doc_def doc_ok_def)
  have t: "list_all doc_ok (written_docs (trace checkpoint_world))"
    by (simp add: checkpoint_world_def empty_world_def written_docs_def)
  have k: "key_of (?v, ?vt) = ''I2_V1''"
    by (simp add: key_of_def job_key_def sample_vignette_def)
  note inst = C3_progress_invariant [OF f t, where e = good_env and rng = "(0, 2)"
        and ts = sample_templates and vs = sample_items and v = ?v
        and vt = ?vt and st = "start_state 1 checkpoint_world"]
  have run: "state_ok (start_state 1 checkpoint_world)
    \<and> list_all doc_ok (written_docs (trace
         (run_batch good_env 1 (0, 2) sample_templates sample_items checkpoint_world)))
    \<and> file_ok 1 (run_batch good_env 1 (0, 2) sample_templates sample_items checkpoint_world)
    \<and> state_ok (start_state 1
         (run_batch good_env 1 (0, 2) sample_templates sample_items checkpoint_world))
    \<and> {''I1_V1'', ''I1_V2''} \<subseteq> set (fst (load_batch_progress 1
         (run_batch good_env 1 (0, 2) sample_templates sample_items checkpoint_world)))
    \<and> prefix [sample_object, sample_object] (snd (load_batch_progress 1
         (run_batch good_env 1 (0, 2) sample_templates sample_items checkpoint_world)))"
    using inst by (simp add: checkpoint_loaded_Suc)
  have step: "set (completed (job_step good_env 1 ?v ?vt (start_state 1 checkpoint_world)))
       = {''I2_V1'', ''I1_V1'', ''I1_V2''}
    \<and> adaptations (job_step good_env 1 ?v ?vt (start_state 1 checkpoint_world))
       = [sample_object, sample_object, pilot_result]
    \<and> snd (load_batch_progress 1 (world (job_step good_env 1 ?v ?vt
              (start_state 1 checkpoint_world))))
       = [sample_object, sample_object, pilot_result]
    \<and> output_files (world (job_step good_env 1 ?v ?vt (start_state 1 checkpoint_world))) 1
       = Some [sample_object, sample_object, pilot_result]"
    using inst [THEN conjunct2, THEN conjunct2, THEN conjunct2, THEN conjunct2,
        THEN conjunct2, THEN conjunct2, THEN conjunct2, THEN conjunct1]
    by (simp add: k checkpoint_state checkpoint_step)
  have n: "''I2_V1'' \<notin> set (completed (start_state 1 checkpoint_world))"
    by (simp add: checkpoint_state)
  from f t run step n show ?thesis by blast
qed

text \<open>
  C2. Backoff on rate limits. No job makes more than \<^verbatim>\<open>MAX_RETRIES = 5\<close> calls. When
  every call of a job is refused with status 429, the job makes five calls and
  returns no result; the waits are the initial
  delay doubled after each refusal and clamped at the maximum, that is 60, 120, 240,
  300, 300 seconds, the last one after the last attempt. The delay is local to the
  job: the statement holds from any state, so a job that follows a rate-limited one
  starts again at 60 (the instance below runs two such jobs in a row). The job is
  recorded as failed and the loop goes on with the next variant.
\<close>

theorem C2_rate_limit_backoff:
  assumes "\<forall>i<MAX_RETRIES. call_gemini_api e (calls (world st) + i) (v, fst vt, snd vt)
             = Inl (HTTPError 429)"
  shows "adapt_single_vignette e v (fst vt) (snd vt) (world st) =
           (None, (world st)\<lparr>calls := calls (world st) + MAX_RETRIES,
                     trace := trace (world st) @ map Retry_sleep
                       (map (\<lambda>i. min (INITIAL_RETRY_DELAY * 2 ^ i) MAX_RETRY_DELAY)
                          [0..<MAX_RETRIES])\<rparr>)
    \<and> map (\<lambda>i. min (INITIAL_RETRY_DELAY * 2 ^ i) MAX_RETRY_DELAY) [0..<MAX_RETRIES]
        = [60, 120, 240, 300, 300]
    \<and> MAX_RETRIES = 5
    \<and> calls (snd (adapt_single_vignette e1 v1 variant1 t1 w1)) \<le> calls w1 + MAX_RETRIES
    \<and> (job_key (vignette_id v) (fst vt) \<notin> set (completed st) \<longrightarrow>
         variant_loop e b v (vt # vts) st =
           variant_loop e b v vts
             (st\<lparr>failed := failed st @ [job_key (vignette_id v) (fst vt)],
                 world := (world st)\<lparr>calls := calls (world st) + MAX_RETRIES,
                    trace := trace (world st) @ [Job_started (job_key (vignette_id v) (fst vt))]
                       @ map Retry_sleep [60, 120, 240, 300, 300]
                       @ [Job_failed (job_key (vignette_id v) (fst vt)),
                          Rate_sleep DELAY_BETWEEN_REQUESTS]\<rparr>\<rparr>))"
proof (intro conjI impI)
  show "adapt_single_vignette e v (fst vt) (snd vt) (world st) =
           (None, (world st)\<lparr>calls := calls (world st) + MAX_RETRIES,
                     trace := trace (world st) @ map Retry_sleep
                       (map (\<lambda>i. min (INITIAL_RETRY_DELAY * 2 ^ i) MAX_RETRY_DELAY)
                          [0..<MAX_RETRIES])\<rparr>)"
    by (rule adapt_all_429 [OF assms])
  show "map (\<lambda>i. min (INITIAL_RETRY_DELAY * 2 ^ i) MAX_RETRY_DELAY) [0..<MAX_RETRIES]
        = [60, 120, 240, 300, 300]"
    by (rule backoff_waits)
  show "MAX_RETRIES = 5"
    by (simp add: MAX_RETRIES_def)
  show "calls (snd (adapt_single_vignette e1 v1 variant1 t1 w1)) \<le> calls w1 + MAX_RETRIES"
    by (rule adapt_calls)
next
  assume "job_key (vignette_id v) (fst vt) \<notin> set (completed st)"
  from job_step_all_429 [OF this assms, of b]
  show "variant_loop e b v (vt # vts) st =
           variant_loop e b v vts
             (st\<lparr>failed := failed st @ [job_key (vignette_id v) (fst vt)],
                 world := (world st)\<lparr>calls := calls (world st) + MAX_RETRIES,
                    trace := trace (world st) @ [Job_started (job_key (vignette_id v) (fst vt))]
                       @ map Retry_sleep [60, 120, 240, 300, 300]
                       @ [Job_failed (job_key (vignette_id v) (fst vt)),
                          Rate_sleep DELAY_BETWEEN_REQUESTS]\<rparr>\<rparr>)"
    by simp
qed

theorem C2_rate_limit_backoff_witness:
  "call_gemini_api limited_env = (\<lambda>n p. Inl (HTTPError 429))
   \<and> job_key (vignette_id (sample_vignette ''I2'')) ''V1''
        \<notin> set (completed (start_state 1 checkpoint_world))
   \<and> trace (world (variant_loop limited_env 1 (sample_vignette ''I2'') sample_templates
         (start_state 1 checkpoint_world)))
       = [Job_started ''I2_V1'', Retry_sleep 60, Retry_sleep 120, Retry_sleep 240,
          Retry_sleep 300, Retry_sleep 300, Job_failed ''I2_V1'', Rate_sleep 8,
          Job_started ''I2_V2'', Retry_sleep 60, Retry_sleep 120, Retry_sleep 240,
          Retry_sleep 300, Retry_sleep 300, Job_failed ''I2_V2'', Rate_sleep 8]
   \<and> failed (variant_loop limited_env 1 (sample_vignette ''I2'') sample_templates
         (start_state 1 checkpoint_world)) = [''I2_V1'', ''I2_V2'']
   \<and> calls (world (variant_loop limited_env 1 (sample_vignette ''I2'') sample_templates
         (start_state 1 checkpoint_world))) = 10"
proof -
  let ?v = "sample_vignette ''I2''"
  let ?t1 = "(''V1'', \<lparr>code = ''A'', description = ''first''\<rparr>)"
  let ?t2 = "(''V2'', \<lparr>code = ''B'', description = ''second''\<rparr>)"
  let ?st0 = "start_state 1 checkpoint_world"
  let ?st1 = "?st0\<lparr>failed := failed ?st0 @ [job_key (vignette_id ?v) (fst ?t1)],
                 world := (world ?st0)\<lparr>calls := calls (world ?st0) + MAX_RETRIES,
                    trace := trace (world ?st0) @ [Job_started (job_key (vignette_id ?v) (fst ?t1))]
                       @ map Retry_sleep [60, 120, 240, 300, 300]
                       @ [Job_failed (job_key (vignette_id ?v) (fst ?t1)),
                          Rate_sleep DELAY_BETWEEN_REQUESTS]\<rparr>\<rparr>"
  have st0: "?st0 = \<lparr>completed = [''I1_V1'', ''I1_V2''],
                      adaptations = [sample_object, sample_object], failed = [],
                      world = checkpoint_world\<rparr>"
    by (simp add: start_state_def checkpoint_loaded_Suc)
  have st0': "start_state (Suc 0) checkpoint_world = \<lparr>completed = [''I1_V1'', ''I1_V2''],
                      adaptations = [sample_object, sample_object], failed = [],
                      world = checkpoint_world\<rparr>"
    using st0 by simp
  have cw: "trace checkpoint_world = []" "calls checkpoint_world = 0"
    by (simp_all add: checkpoint_world_def empty_world_def)
  have k1: "job_key (vignette_id ?v) (fst ?t1) \<notin> set (completed ?st0)"
    by (simp add: st0' job_key_def sample_vignette_def)
  have k2: "job_key (vignette_id ?v) (fst ?t2) \<notin> set (completed ?st1)"
    by (simp add: st0' job_key_def sample_vignette_def)
  have a1: "\<forall>i<MAX_RETRIES. call_gemini_api limited_env (calls (world ?st0) + i)
              (?v, fst ?t1, snd ?t1) = Inl (HTTPError 429)"
    by (simp add: limited_env_call)
  have a2: "\<forall>i<MAX_RETRIES. call_gemini_api limited_env (calls (world ?st1) + i)
              (?v, fst ?t2, snd ?t2) = Inl (HTTPError 429)"
    by (simp add: limited_env_call)
  have "variant_loop limited_env 1 ?v [?t1, ?t2] ?st0 = variant_loop limited_env 1 ?v [?t2] ?st1"
    using C2_rate_limit_backoff [OF a1, where b = 1 and vts = "[?t2]"] k1 by blast
  also have "\<dots> = variant_loop limited_env 1 ?v []
      (?st1\<lparr>failed := failed ?st1 @ [job_key (vignette_id ?v) (fst ?t2)],
                 world := (world ?st1)\<lparr>calls := calls (world ?st1) + MAX_RETRIES,
                    trace := trace (world ?st1) @ [Job_started (job_key (vignette_id ?v) (fst ?t2))]
                       @ map Retry_sleep [60, 120, 240, 300, 300]
                       @ [Job_failed (job_key (vignette_id ?v) (fst ?t2)),
                          Rate_sleep DELAY_BETWEEN_REQUESTS]\<rparr>\<rparr>)"
    using C2_rate_limit_backoff [OF a2, where b = 1 and vts = "[]"] k2 by blast
  finally show ?thesis
    using k1
    by (simp add: sample_templates_def st0' job_key_def sample_vignette_def MAX_RETRIES_def
        DELAY_BETWEEN_REQUESTS_def cw limited_env_def sample_env_def)
qed

text \<open>
  C5. A response that parses to an object lacking a required field leaves the
  \<^verbatim>\<open>try\<close> with the general exception: the attempt sleeps 15 seconds and the loop
  goes on, except on the last attempt, where the job gives up. Such a response is
  never a success: with the metadata added it still lacks the field, whereas every
  result a job returns, and every result a run appends to the progress, has the four
  required fields.
\<close>

theorem C5_missing_field_retried:
  assumes "call_gemini_api e (calls w) p = Inr reply"
    and "json_loads e (extract_json reply) = Some (JObj r)"
    and "\<not> complete r"
  shows "try_body e p v (calls w) stamp = Inl Exception
    \<and> attempts e p v (a # as) rd w =
        (if a = MAX_RETRIES - 1 then (None, w\<lparr>calls := calls w + 1\<rparr>)
         else attempts e p v as rd (emit (Retry_sleep 15) (w\<lparr>calls := calls w + 1\<rparr>)))
    \<and> \<not> complete (add_metadata v stamp r)
    \<and> (case fst (adapt_single_vignette e' v' vt' t' w') of
          None \<Rightarrow> True
        | Some r' \<Rightarrow> complete r' \<and> r' \<noteq> add_metadata v stamp r)
    \<and> (\<exists>new. adaptations (run_jobs e' b js st) = adaptations st @ new
          \<and> list_all complete new \<and> add_metadata v stamp r \<notin> set new)"
proof (intro conjI)
  show "try_body e p v (calls w) stamp = Inl Exception"
    by (rule try_body_incomplete [OF assms])
  show "attempts e p v (a # as) rd w =
        (if a = MAX_RETRIES - 1 then (None, w\<lparr>calls := calls w + 1\<rparr>)
         else attempts e p v as rd (emit (Retry_sleep 15) (w\<lparr>calls := calls w + 1\<rparr>)))"
    using try_body_incomplete [OF assms, of v "now_isoformat e (ticks w)"]
    by (simp add: Let_def)
  show n: "\<not> complete (add_metadata v stamp r)"
    using assms(3) by (simp add: complete_add_metadata)
  show "case fst (adapt_single_vignette e' v' vt' t' w') of
          None \<Rightarrow> True
        | Some r' \<Rightarrow> complete r' \<and> r' \<noteq> add_metadata v stamp r"
    using adapt_complete [of e' v' vt' t' w'] n by (auto split: option.splits)
  from run_jobs_adaptations [of e' b js st] obtain new where
    "adaptations (run_jobs e' b js st) = adaptations st @ new" "list_all complete new"
    by blast
  moreover from this(2) n have "add_metadata v stamp r \<notin> set new"
    by (auto simp: list_all_iff)
  ultimately show "\<exists>new. adaptations (run_jobs e' b js st) = adaptations st @ new
          \<and> list_all complete new \<and> add_metadata v stamp r \<notin> set new"
    by blast
qed

theorem C5_missing_field_retried_witness:
  "call_gemini_api hollow_env (calls empty_world)
       (sample_vignette ''I1'', ''V1'', pilot_template) = Inr [123, 125]
   \<and> json_loads hollow_env (extract_json [123, 125]) = Some (JObj [])
   \<and> \<not> complete []
   \<and> try_body hollow_env (sample_vignette ''I1'', ''V1'', pilot_template)
         (sample_vignette ''I1'') (calls empty_world) ''now'' = Inl Exception
   \<and> attempts hollow_env (sample_vignette ''I1'', ''V1'', pilot_template)
         (sample_vignette ''I1'') [4] 60 empty_world
       = (None, empty_world\<lparr>calls := 1\<rparr>)
   \<and> adapt_single_vignette hollow_env (sample_vignette ''I1'') ''V1'' pilot_template empty_world
       = (None, empty_world\<lparr>calls := 5,
            trace := [Retry_sleep 15, Retry_sleep 15, Retry_sleep 15, Retry_sleep 15]\<rparr>)"
proof -
  have a: "call_gemini_api hollow_env (calls empty_world)
             (sample_vignette ''I1'', ''V1'', pilot_template) = Inr [123, 125]"
    by (rule hollow_env_reply)
  have n: "\<not> complete []"
    by (simp add: complete_def required_fields_def has_key_def)
  note step = C5_missing_field_retried [OF a hollow_env_reply(2) n,
      where v = "sample_vignette ''I1''" and stamp = "''now''" and a = 4 and as = "[]" and rd = 60]
  have "attempts hollow_env (sample_vignette ''I1'', ''V1'', pilot_template)
         (sample_vignette ''I1'') [4] 60 empty_world
       = (None, empty_world\<lparr>calls := 1\<rparr>)"
    using step [THEN conjunct2, THEN conjunct1]
    by (simp add: MAX_RETRIES_def empty_world_def)
  then show ?thesis
    using a n hollow_env_reply(2) step [THEN conjunct1] hollow_run by simp
qed

text \<open>
  C9, as the claim states it, fails: the script adds neither the identifier of the
  originating item nor the code of the variant to a result. Here the service answers
  the job of \<^verbatim>\<open>PILOT-001\<close> and \<^verbatim>\<open>urban_wealthy_male\<close> (code \<^verbatim>\<open>UWM\<close>) with an object
  that has the four required fields and names neither; the result is accepted, and it
  holds the answer's entries and the category, the model and the timestamp.
\<close>

theorem C9_item_and_variant_not_added:
  "adapt_single_vignette good_env (sample_vignette ''PILOT-001'') ''urban_wealthy_male''
      pilot_template empty_world
     = (Some pilot_result, empty_world\<lparr>calls := 1, ticks := 1\<rparr>)
   \<and> \<not> mentions pilot_result ''PILOT-001''
   \<and> \<not> mentions pilot_result ''UWM''
   \<and> \<not> mentions pilot_result ''urban_wealthy_male''
   \<and> mentions pilot_result MODEL_NAME
   \<and> map fst pilot_result
       = [''vignette_id'', ''question'', ''options'', ''answer'', ''category'', ''model'',
          ''timestamp'']"
  by (simp add: good_run) (simp add: mentions_def pilot_result_def MODEL_NAME_def)

text \<open>
  C9, amended. A result is returned only for a call that succeeded, namely the last
  call of the job, whose response parsed to an object with the required fields; the
  result is that object with three entries set by the script: the category of the
  originating item, the model name and the time of completion. A job appends nothing
  to the results, or the one result its call returned; the results already in the
  list, in memory and on disk, stay as they are at the front of the list.
\<close>

theorem C9_result_provenance:
  assumes "adapt_single_vignette e v vt t w = (Some r', w')"
  shows "(\<exists>reply r. calls w < calls w'
            \<and> call_gemini_api e (calls w' - 1) (v, vt, t) = Inr reply
            \<and> json_loads e (extract_json reply) = Some (JObj r) \<and> complete r
            \<and> r' = add_metadata v (now_isoformat e (ticks w)) r
            \<and> map_of r' = (map_of r)
                 (''category'' \<mapsto> JStr (case category v of None \<Rightarrow> [] | Some c \<Rightarrow> c),
                  ''model'' \<mapsto> JStr MODEL_NAME,
                  ''timestamp'' \<mapsto> JStr (now_isoformat e (ticks w))))
    \<and> (adaptations (job_step e1 b v1 vt1 st) = adaptations st
       \<or> (\<exists>r w2. adapt_single_vignette e1 v1 (fst vt1) (snd vt1)
                     (emit (Job_started (job_key (vignette_id v1) (fst vt1))) (world st))
                   = (Some r, w2)
             \<and> adaptations (job_step e1 b v1 vt1 st) = adaptations st @ [r]))
    \<and> prefix (adaptations st) (adaptations (run_jobs e1 b js st))
    \<and> prefix (snd (load_batch_progress b w0))
         (snd (load_batch_progress b (run_batch e1 b rng ts vs w0)))"
proof (intro conjI)
  from attempts_success [OF assms [unfolded adapt_single_vignette_def]]
  obtain reply r where *: "call_gemini_api e (calls w' - 1) (v, vt, t) = Inr reply"
    "json_loads e (extract_json reply) = Some (JObj r)" "list_all (has_key r) required_fields"
    "r' = add_metadata v (now_isoformat e (ticks w)) r" "calls w < calls w'"
    by blast
  from *(3) have "complete r" by (simp add: complete_def)
  with * show "\<exists>reply r. calls w < calls w'
            \<and> call_gemini_api e (calls w' - 1) (v, vt, t) = Inr reply
            \<and> json_loads e (extract_json reply) = Some (JObj r) \<and> complete r
            \<and> r' = add_metadata v (now_isoformat e (ticks w)) r
            \<and> map_of r' = (map_of r)
                 (''category'' \<mapsto> JStr (case category v of None \<Rightarrow> [] | Some c \<Rightarrow> c),
                  ''model'' \<mapsto> JStr MODEL_NAME,
                  ''timestamp'' \<mapsto> JStr (now_isoformat e (ticks w)))"
    using map_of_add_metadata by blast
  show "adaptations (job_step e1 b v1 vt1 st) = adaptations st
       \<or> (\<exists>r w2. adapt_single_vignette e1 v1 (fst vt1) (snd vt1)
                     (emit (Job_started (job_key (vignette_id v1) (fst vt1))) (world st))
                   = (Some r, w2)
             \<and> adaptations (job_step e1 b v1 vt1 st) = adaptations st @ [r])"
    by (rule job_step_appends)
  show "prefix (adaptations st) (adaptations (run_jobs e1 b js st))"
    using run_jobs_adaptations [of e1 b js st] by auto
  show "prefix (snd (load_batch_progress b w0))
         (snd (load_batch_progress b (run_batch e1 b rng ts vs w0)))"
    using run_batch_grows [of b w0 e1 rng ts vs] by simp
qed

theorem C9_result_provenance_witness:
  "adapt_single_vignette good_env (sample_vignette ''PILOT-001'') ''urban_wealthy_male''
      pilot_template empty_world
     = (Some pilot_result, empty_world\<lparr>calls := 1, ticks := 1\<rparr>)
   \<and> map_of pilot_result ''category'' = Some (JStr ''cardiology'')
   \<and> map_of pilot_result ''model'' = Some (JStr MODEL_NAME)
   \<and> map_of pilot_result ''timestamp'' = Some (JStr (now_isoformat good_env 0))
   \<and> (\<exists>reply r. call_gemini_api good_env 0
           (sample_vignette ''PILOT-001'', ''urban_wealthy_male'', pilot_template) = Inr reply
         \<and> json_loads good_env (extract_json reply) = Some (JObj r) \<and> complete r
         \<and> pilot_result = add_metadata (sample_vignette ''PILOT-001'') (now_isoformat good_env 0) r)"
proof -
  from C9_result_provenance [OF good_run, THEN conjunct1]
  obtain reply r where
    "call_gemini_api good_env 0
       (sample_vignette ''PILOT-001'', ''urban_wealthy_male'', pilot_template) = Inr reply"
    "json_loads good_env (extract_json reply) = Some (JObj r)" "complete r"
    "pilot_result = add_metadata (sample_vignette ''PILOT-001'') (now_isoformat good_env 0) r"
    "map_of pilot_result = (map_of r)
       (''category'' \<mapsto> JStr (case category (sample_vignette ''PILOT-001'') of
                                   None \<Rightarrow> [] | Some c \<Rightarrow> c),
        ''model'' \<mapsto> JStr MODEL_NAME,
        ''timestamp'' \<mapsto> JStr (now_isoformat good_env 0))"
    by (auto simp: empty_world_def)
  then show ?thesis
    using good_run by (auto simp: sample_vignette_def)
qed

end
